theory Spec2Isabelle
  imports Main "HOL-Library.Sublist" "HOL-Library.Word"
begin

section \<open>Allele reconciliation and remapping of variant calls\<close>

text \<open>
  A shallow embedding of \<^verbatim>\<open>src/variant/src/variant_operations.cc\<close>. Each C++ function
  becomes a HOL function of the same name. Mutated arguments are returned, a thrown
  exception, a failed \<^verbatim>\<open>assert\<close>, a call of \<^verbatim>\<open>exit\<close> and an access outside a
  vector are values of the type \<open>error\<close>. The two build switches the file depends on
  are explicit arguments: \<open>debug\<close> stands for the macro \<^verbatim>\<open>DEBUG\<close> (the block under
  \<^verbatim>\<open>#ifdef DEBUG\<close>), \<open>asserts\<close> for \<^verbatim>\<open>assert\<close> being compiled in (no
  \<^verbatim>\<open>NDEBUG\<close>).
\<close>

subsection \<open>Errors\<close>

datatype error =
    InvalidArgument string string  \<comment> \<open>\<^verbatim>\<open>std::invalid_argument\<close>: shorter and longer reference\<close>
  | AssertionFailure               \<comment> \<open>a failed \<^verbatim>\<open>assert\<close>, when asserts are compiled in\<close>
  | OutOfBounds                    \<comment> \<open>an access outside a vector: undefined behaviour in C++\<close>
  | NullField                      \<comment> \<open>a null or mistyped field pointer dereferenced: undefined behaviour\<close>
  | ProcessExit int nat            \<comment> \<open>\<^verbatim>\<open>exit(status)\<close> after the line \<^verbatim>\<open>Unhandled type n\<close> on \<^verbatim>\<open>std::cerr\<close>\<close>

text \<open>Sequencing of fallible steps: the first error ends the computation.\<close>

definition bind_err :: "error + 'a \<Rightarrow> ('a \<Rightarrow> error + 'b) \<Rightarrow> error + 'b" where
  "bind_err m f = (case m of Inl e \<Rightarrow> Inl e | Inr x \<Rightarrow> f x)"

text \<open>A \<^verbatim>\<open>for\<close> loop over a sequence whose body may fail.\<close>

fun fold_err :: "('x \<Rightarrow> 's \<Rightarrow> error + 's) \<Rightarrow> 'x list \<Rightarrow> 's \<Rightarrow> error + 's" where
  "fold_err f [] s = Inr s"
| "fold_err f (x # xs) s = (case f x s of Inl e \<Rightarrow> Inl e | Inr s' \<Rightarrow> fold_err f xs s')"

text \<open>\<^verbatim>\<open>assert(c)\<close>: fails only when asserts are compiled in.\<close>

definition assert_err :: "bool \<Rightarrow> bool \<Rightarrow> error + unit" where
  "assert_err asserts c = (if asserts \<and> \<not> c then Inl AssertionFailure else Inr ())"

text \<open>
  \<^verbatim>\<open>v[i]\<close> on a \<^verbatim>\<open>std::vector\<close>, with the index as the C++ integer it is. An index
  out of range is undefined behaviour in the source, which does not check it; here the
  access stops with \<open>OutOfBounds\<close>. The theorems below that say a remapper returns assume
  every index in range.
\<close>

definition vec_get :: "'a list \<Rightarrow> int \<Rightarrow> error + 'a" where
  "vec_get v i = (if 0 \<le> i \<and> i < int (length v) then Inr (v ! nat i) else Inl OutOfBounds)"

definition vec_set :: "'a list \<Rightarrow> nat \<Rightarrow> 'a \<Rightarrow> error + 'a list" where
  "vec_set v i x = (if i < length v then Inr (v[i := x]) else Inl OutOfBounds)"

subsection \<open>Calls and variants\<close>

text \<open>
  A call is one sample's record at a position. Only the parts this file reads are kept:
  validity, the start coordinate, and the known fields REF and ALT; \<open>call_fields\<close>
  holds the queried fields by query index (\<open>None\<close> is the null field pointer). The
  mergers do not look at the queried fields, so their type is a parameter.
  Iterating a variant (\<^verbatim>\<open>for (call : variant)\<close>, \<^verbatim>\<open>variant.begin()\<close>) visits the valid
  calls only, in order, and \<^verbatim>\<open>get_call_idx_in_variant\<close> is the position among all calls.
\<close>

record 'fld VariantCall =
  is_valid :: bool
  call_column_begin :: nat
  REF :: string
  ALT :: "string list"
  call_fields :: "'fld option list"

record 'fld Variant =
  column_begin :: nat
  calls :: "'fld VariantCall list"

definition valid_calls :: "'fld Variant \<Rightarrow> (nat \<times> 'fld VariantCall) list" where
  "valid_calls variant = filter (\<lambda>(i, c). is_valid c) (enumerate 0 (calls variant))"

definition get_num_calls :: "'fld Variant \<Rightarrow> nat" where
  "get_num_calls variant = length (calls variant)"

subsection \<open>Reference merger\<close>

text \<open>
  Modelled from the spec: the macro \<^verbatim>\<open>CHECK_IN_THE_MIDDLE_REF\<close> is declared outside this
  file. The spec calls the in-the-middle reference the single-character placeholder
  \<^verbatim>\<open>"N"\<close>, the value \<^verbatim>\<open>modify_reference_if_in_middle\<close> stores.
\<close>

definition CHECK_IN_THE_MIDDLE_REF :: "string \<Rightarrow> bool" where
  "CHECK_IN_THE_MIDDLE_REF r = (r = ''N'')"

text \<open>
  One iteration of the loop of \<^verbatim>\<open>merge_reference_allele\<close>. The state is the string
  \<^verbatim>\<open>merged_reference_allele\<close> and the local \<^verbatim>\<open>merged_ref_length\<close>, which the code keeps
  beside the string and updates only in the branch for a longer reference.
  \<^verbatim>\<open>longer_ref->find(*shorter_ref) != 0\<close> says that the shorter one is not a prefix;
  \<^verbatim>\<open>append(curr_ref, pos, n)\<close> appends \<open>take n (drop pos curr_ref)\<close>.
\<close>

definition merge_reference_step :: "bool \<Rightarrow> string \<Rightarrow> string \<times> nat \<Rightarrow> error + string \<times> nat" where
  "merge_reference_step debug curr_ref st =
     (case st of (merged_reference_allele, merged_ref_length) \<Rightarrow>
        let curr_ref_length = length curr_ref;
            is_curr_ref_longer = (curr_ref_length > merged_ref_length);
            longer_ref = (if is_curr_ref_longer then curr_ref else merged_reference_allele);
            shorter_ref = (if is_curr_ref_longer then merged_reference_allele else curr_ref)
        in
          if debug \<and> \<not> CHECK_IN_THE_MIDDLE_REF merged_reference_allele
               \<and> \<not> CHECK_IN_THE_MIDDLE_REF curr_ref \<and> \<not> prefix shorter_ref longer_ref
          then Inl (InvalidArgument shorter_ref longer_ref)
          else if is_curr_ref_longer then
            (if merged_ref_length > 0 \<and> CHECK_IN_THE_MIDDLE_REF merged_reference_allele
             then Inr (curr_ref, curr_ref_length)
             else Inr (merged_reference_allele @
                         take (curr_ref_length - merged_ref_length) (drop merged_ref_length curr_ref),
                       curr_ref_length))
          else if CHECK_IN_THE_MIDDLE_REF merged_reference_allele \<and> \<not> CHECK_IN_THE_MIDDLE_REF curr_ref
          then Inr (curr_ref, merged_ref_length)
          else Inr (merged_reference_allele, merged_ref_length))"

definition merge_reference_refs :: "bool \<Rightarrow> string list \<Rightarrow> string \<Rightarrow> error + string" where
  "merge_reference_refs debug refs merged_reference_allele =
     (case fold_err (merge_reference_step debug) refs
             (merged_reference_allele, length merged_reference_allele) of
        Inl e \<Rightarrow> Inl e
      | Inr (merged, merged_ref_length) \<Rightarrow> Inr merged)"

definition merge_reference_allele :: "bool \<Rightarrow> 'fld Variant \<Rightarrow> string \<Rightarrow> error + string" where
  "merge_reference_allele debug variant merged_reference_allele =
     merge_reference_refs debug (map (\<lambda>(i, c). REF c) (valid_calls variant)) merged_reference_allele"


subsection \<open>Allele translation table\<close>

text \<open>
  Modelled from the spec: the class \<^verbatim>\<open>CombineAllelesLUT\<close> and the constant
  \<^verbatim>\<open>lut_missing_value\<close> are declared outside this file. The spec gives the table, for
  each sample index, two arrays of allele indices, local to merged and merged to local,
  whose entries are a non-negative index or the MISSING sentinel; a reset sets every
  entry to MISSING and growth keeps the entries. The arrays are total maps here, so
  growth (\<^verbatim>\<open>resize_luts_if_needed\<close>) changes nothing. The sentinel is \<open>-1\<close>, the value
  \<^verbatim>\<open>merge_alt_alleles\<close> itself uses for an invalid mapping.
\<close>

record CombineAllelesLUT =
  input_to_merged :: "nat \<Rightarrow> int \<Rightarrow> int"
  merged_to_input :: "nat \<Rightarrow> int \<Rightarrow> int"

definition lut_missing_value :: int where
  "lut_missing_value = - 1"

definition is_missing_value :: "int \<Rightarrow> bool" where
  "is_missing_value x = (x = lut_missing_value)"

definition reset_luts :: "CombineAllelesLUT \<Rightarrow> CombineAllelesLUT" where
  "reset_luts lut =
     \<lparr>input_to_merged = (\<lambda>i k. lut_missing_value), merged_to_input = (\<lambda>i k. lut_missing_value)\<rparr>"

definition resize_luts_if_needed :: "CombineAllelesLUT \<Rightarrow> nat \<Rightarrow> CombineAllelesLUT" where
  "resize_luts_if_needed lut n = lut"

definition add_input_merged_idx_pair :: "CombineAllelesLUT \<Rightarrow> nat \<Rightarrow> int \<Rightarrow> int \<Rightarrow> CombineAllelesLUT" where
  "add_input_merged_idx_pair lut i inputIdx mergedIdx =
     \<lparr>input_to_merged = (input_to_merged lut)(i := (input_to_merged lut i)(inputIdx := mergedIdx)),
      merged_to_input = (merged_to_input lut)(i := (merged_to_input lut i)(mergedIdx := inputIdx))\<rparr>"

definition get_merged_idx_for_input :: "CombineAllelesLUT \<Rightarrow> nat \<Rightarrow> int \<Rightarrow> int" where
  "get_merged_idx_for_input lut i inputIdx = input_to_merged lut i inputIdx"

definition get_input_idx_for_merged :: "CombineAllelesLUT \<Rightarrow> nat \<Rightarrow> int \<Rightarrow> int" where
  "get_input_idx_for_merged lut i mergedIdx = merged_to_input lut i mergedIdx"

subsection \<open>Alt allele merger\<close>

text \<open>
  Modelled from the spec: the string \<^verbatim>\<open>g_non_reference_allele\<close> and the test
  \<^verbatim>\<open>IS_NON_REF_ALLELE\<close> are declared outside this file. The spec has exactly one reserved
  symbolic allele, the non-reference placeholder, and the merger tests whether a local
  allele equals it. The spelling is the one of gVCF files; the general theorems below do
  not depend on it.
\<close>

definition g_non_reference_allele :: string where
  "g_non_reference_allele = ''<NON_REF>''"

definition IS_NON_REF_ALLELE :: "string \<Rightarrow> bool" where
  "IS_NON_REF_ALLELE allele = (allele = g_non_reference_allele)"

text \<open>
  The locals of \<^verbatim>\<open>merge_alt_alleles\<close> that its loops update. The unsigned counters are
  natural numbers: they count alleles and cannot reach \<open>2^32\<close>.
\<close>

record alt_merge_state =
  seen_alleles :: "string \<rightharpoonup> int"
  merged_alt_alleles :: "string list"
  merged_allele_idx :: nat
  alleles_LUT :: CombineAllelesLUT
  input_non_reference_allele_idx :: "int list"
  NON_REF_exists :: bool

text \<open>
  The copy of an allele the dictionary sees: with \<^verbatim>\<open>is_suffix_needed\<close>, the allele followed
  by \<^verbatim>\<open>suffix_length\<close> characters of the merged reference from position
  \<^verbatim>\<open>curr_reference_length\<close> on.
\<close>

definition padded_allele :: "string \<Rightarrow> nat \<Rightarrow> string \<Rightarrow> string" where
  "padded_allele merged_reference_allele curr_reference_length allele =
     (let merged_reference_length = length merged_reference_allele;
          is_suffix_needed = (curr_reference_length < merged_reference_length);
          suffix_length = (if is_suffix_needed then merged_reference_length - curr_reference_length else 0)
      in if is_suffix_needed
         then allele @ take suffix_length (drop curr_reference_length merged_reference_allele)
         else allele)"

text \<open>The body of the loop over one call's alt alleles; \<open>input_allele_idx\<close> counts from 1.\<close>

definition merge_alt_allele_step ::
  "string \<Rightarrow> nat \<Rightarrow> nat \<Rightarrow> nat \<times> string \<Rightarrow> alt_merge_state \<Rightarrow> alt_merge_state" where
  "merge_alt_allele_step merged_reference_allele curr_call_idx_in_variant curr_reference_length ia st =
     (case ia of (input_allele_idx, allele) \<Rightarrow>
        if IS_NON_REF_ALLELE allele then
          st\<lparr>input_non_reference_allele_idx :=
                (input_non_reference_allele_idx st)[curr_call_idx_in_variant := int input_allele_idx],
             NON_REF_exists := True\<rparr>
        else
          let allele_ptr = padded_allele merged_reference_allele curr_reference_length allele in
          (case seen_alleles st allele_ptr of
             None \<Rightarrow>
               st\<lparr>seen_alleles := (seen_alleles st)(allele_ptr \<mapsto> int (merged_allele_idx st)),
                  alleles_LUT :=
                    add_input_merged_idx_pair
                      (resize_luts_if_needed (alleles_LUT st) (merged_allele_idx st + 1))
                      curr_call_idx_in_variant (int input_allele_idx) (int (merged_allele_idx st)),
                  merged_alt_alleles := merged_alt_alleles st @ [allele_ptr],
                  merged_allele_idx := merged_allele_idx st + 1\<rparr>
           | Some idx \<Rightarrow>
               st\<lparr>alleles_LUT :=
                    add_input_merged_idx_pair (alleles_LUT st)
                      curr_call_idx_in_variant (int input_allele_idx) idx\<rparr>))"

text \<open>The body of the loop over the valid calls.\<close>

definition merge_alt_call_step ::
  "string \<Rightarrow> nat \<times> 'fld VariantCall \<Rightarrow> alt_merge_state \<Rightarrow> alt_merge_state" where
  "merge_alt_call_step merged_reference_allele ic st =
     (case ic of (curr_call_idx_in_variant, curr_valid_call) \<Rightarrow>
        let curr_reference_length = length (REF curr_valid_call);
            st0 = st\<lparr>alleles_LUT := add_input_merged_idx_pair (alleles_LUT st) curr_call_idx_in_variant 0 0\<rparr>
        in fold (merge_alt_allele_step merged_reference_allele curr_call_idx_in_variant curr_reference_length)
             (enumerate 1 (ALT curr_valid_call)) st0)"

text \<open>The second loop over the valid calls, which maps each call's placeholder.\<close>

definition add_non_ref_mapping ::
  "int list \<Rightarrow> nat \<Rightarrow> nat \<times> 'fld VariantCall \<Rightarrow> CombineAllelesLUT \<Rightarrow> CombineAllelesLUT" where
  "add_non_ref_mapping non_ref_idxs non_reference_allele_idx ic lut =
     (case ic of (curr_call_idx_in_variant, curr_valid_call) \<Rightarrow>
        if non_ref_idxs ! curr_call_idx_in_variant \<ge> 0
        then add_input_merged_idx_pair lut curr_call_idx_in_variant
               (non_ref_idxs ! curr_call_idx_in_variant) (int non_reference_allele_idx)
        else lut)"

text \<open>
  \<^verbatim>\<open>merge_alt_alleles\<close> returns the merged alt alleles and, through its reference
  arguments, the table and the flag \<^verbatim>\<open>NON_REF_exists\<close>.
\<close>

definition merge_alt_alleles ::
  "'fld Variant \<Rightarrow> string \<Rightarrow> CombineAllelesLUT \<Rightarrow> string list \<times> CombineAllelesLUT \<times> bool" where
  "merge_alt_alleles variant merged_reference_allele lut0 =
     (let init = \<lparr>seen_alleles = [g_non_reference_allele \<mapsto> - 1],
                  merged_alt_alleles = [],
                  merged_allele_idx = 1,
                  alleles_LUT = reset_luts lut0,
                  input_non_reference_allele_idx = replicate (get_num_calls variant) (- 1),
                  NON_REF_exists = False\<rparr>;
          st = fold (merge_alt_call_step merged_reference_allele) (valid_calls variant) init
      in if NON_REF_exists st then
           let alts = merged_alt_alleles st @ [g_non_reference_allele];
               non_reference_allele_idx = length alts;
               lut1 = resize_luts_if_needed (alleles_LUT st) (non_reference_allele_idx + 1);
               lut2 = fold (add_non_ref_mapping (input_non_reference_allele_idx st) non_reference_allele_idx)
                        (valid_calls variant) lut1
           in (alts, lut2, True)
         else (merged_alt_alleles st, alleles_LUT st, False))"

text \<open>
  The order the spec gives the merged alt alleles: each string once, at the place of
  its first occurrence.
\<close>

fun first_seen :: "'a list \<Rightarrow> 'a list \<Rightarrow> 'a list" where
  "first_seen acc [] = acc"
| "first_seen acc (x # xs) = first_seen (if x \<in> set acc then acc else acc @ [x]) xs"

text \<open>
  The non-placeholder alt alleles the valid calls contribute, in the order of the
  iteration: call index, local allele index, padded string.
\<close>

definition call_contributions :: "string \<Rightarrow> nat \<times> 'fld VariantCall \<Rightarrow> (nat \<times> nat \<times> string) list" where
  "call_contributions merged_reference_allele ic =
     (case ic of (i, c) \<Rightarrow>
        map (\<lambda>(p, a). (i, p, padded_allele merged_reference_allele (length (REF c)) a))
          (filter (\<lambda>(p, a). \<not> IS_NON_REF_ALLELE a) (enumerate 1 (ALT c))))"

definition contributions :: "'fld Variant \<Rightarrow> string \<Rightarrow> (nat \<times> nat \<times> string) list" where
  "contributions variant merged_reference_allele =
     concat (map (call_contributions merged_reference_allele) (valid_calls variant))"

subsection \<open>Genotype call remapper\<close>

text \<open>
  \<^verbatim>\<open>remap_GT_field\<close>. \<open>output_GT\<close> is the vector the caller passes in; the result is its
  final value. Both \<^verbatim>\<open>assert\<close>s stand where the source has them. A write beyond the end
  of \<open>output_GT\<close>, which only a build without asserts can reach, is \<open>OutOfBounds\<close>.
\<close>

definition remap_GT_step ::
  "bool \<Rightarrow> int list \<Rightarrow> CombineAllelesLUT \<Rightarrow> nat \<Rightarrow> nat \<Rightarrow> int list \<Rightarrow> error + int list" where
  "remap_GT_step asserts input_GT lut input_call_idx i output_GT =
     (let output_allele_idx = get_merged_idx_for_input lut input_call_idx (input_GT ! i) in
      bind_err (assert_err asserts (\<not> is_missing_value output_allele_idx))
        (\<lambda>_. vec_set output_GT i output_allele_idx))"

definition remap_GT_field ::
  "bool \<Rightarrow> int list \<Rightarrow> int list \<Rightarrow> CombineAllelesLUT \<Rightarrow> nat \<Rightarrow> error + int list" where
  "remap_GT_field asserts input_GT output_GT lut input_call_idx =
     bind_err (assert_err asserts (length input_GT = length output_GT))
       (\<lambda>_. fold_err (remap_GT_step asserts input_GT lut input_call_idx)
              [0..<length input_GT] output_GT)"

subsection \<open>Remap destinations\<close>



subsection \<open>Field remappers\<close>

text \<open>
  Modelled from the spec: the macro \<^verbatim>\<open>bcf_alleles2gt\<close> is not defined in this repository.
  The spec gives the triangular pair index \<open>index(a,b) = a + b*(b+1)/2\<close> for \<open>a \<le> b\<close>, the
  canonical index of the unordered pair, so the two are swapped when \<open>a > b\<close>.
\<close>

definition bcf_alleles2gt :: "int \<Rightarrow> int \<Rightarrow> int" where
  "bcf_alleles2gt a b = (if a > b then a * (a + 1) div 2 + b else b * (b + 1) div 2 + a)"

text \<open>
  \<^verbatim>\<open>num_merged_alleles\<close> is an \<^verbatim>\<open>unsigned\<close>, a natural number below \<open>2^32\<close>;
  \<^verbatim>\<open>num_merged_alleles-1\<close> wraps at 0, and \<^verbatim>\<open>static_cast<int>\<close> reads the 32 bits as a
  signed number.
\<close>

definition unsigned_minus_one :: "nat \<Rightarrow> nat" where
  "unsigned_minus_one n = (n + 2 ^ 32 - 1) mod 2 ^ 32"

definition static_cast_int :: "nat \<Rightarrow> int" where
  "static_cast_int u = (if u < 2 ^ 31 then int u else int u - 2 ^ 32)"

text \<open>
  The index of the placeholder in the input sample, computed at the head of both
  remappers: \<^verbatim>\<open>input_non_reference_allele_idx\<close>.
\<close>

definition input_non_reference_idx :: "CombineAllelesLUT \<Rightarrow> nat \<Rightarrow> nat \<Rightarrow> bool \<Rightarrow> int" where
  "input_non_reference_idx lut input_call_idx num_merged_alleles non_ref_exists =
     (let merged_non_reference_allele_idx =
            (if non_ref_exists then static_cast_int (unsigned_minus_one num_merged_alleles)
             else lut_missing_value)
      in if non_ref_exists
         then get_input_idx_for_merged lut input_call_idx merged_non_reference_allele_idx
         else lut_missing_value)"

text \<open>
  In the remappers below the parameter \<^verbatim>\<open>alleles_LUT\<close> is \<open>lut\<close>, the flag
  \<^verbatim>\<open>NON_REF_exists\<close> is \<open>non_ref_exists\<close>, and the locals
  \<^verbatim>\<open>input_non_reference_allele_idx\<close> and \<^verbatim>\<open>length\<close> are \<open>non_ref_idx\<close> and \<open>len\<close>:
  the source's names are taken by the state of the alt allele merger and by the list
  library.
\<close>

text \<open>
  The state the remappers update: the destination and the vector
  \<^verbatim>\<open>num_calls_with_valid_data\<close>, whose 64-bit counters count calls and do not wrap.
  \<open>put_missing\<close> and \<open>put_value\<close> are the two kinds of store of the loop bodies; the
  second reads \<^verbatim>\<open>input_data\<close>, stores, and increments the counter of the slot. The read
  \<^verbatim>\<open>input_data[input_idx]\<close> is unchecked in the source: an index out of range, such as
  \<open>- 1\<close> in a build without asserts, is undefined behaviour there and \<open>OutOfBounds\<close> here.
\<close>

definition put_missing ::
  "(nat \<Rightarrow> nat \<Rightarrow> 'a \<Rightarrow> 'd \<Rightarrow> error + 'd) \<Rightarrow> nat \<Rightarrow> nat \<Rightarrow> 'a \<Rightarrow> 'd \<times> nat list \<Rightarrow> error + 'd \<times> nat list" where
  "put_missing put input_call_idx idx missing_value st =
     (case st of (remapped_data, num_calls_with_valid_data) \<Rightarrow>
        bind_err (put input_call_idx idx missing_value remapped_data)
          (\<lambda>remapped_data'. Inr (remapped_data', num_calls_with_valid_data)))"

definition put_value ::
  "(nat \<Rightarrow> nat \<Rightarrow> 'a \<Rightarrow> 'd \<Rightarrow> error + 'd) \<Rightarrow> 'a list \<Rightarrow> nat \<Rightarrow> nat \<Rightarrow> int \<Rightarrow> 'd \<times> nat list \<Rightarrow> error + 'd \<times> nat list" where
  "put_value put input_data input_call_idx idx input_idx st =
     (case st of (remapped_data, num_calls_with_valid_data) \<Rightarrow>
        bind_err (vec_get input_data input_idx) (\<lambda>x.
        bind_err (put input_call_idx idx x remapped_data) (\<lambda>remapped_data'.
        bind_err (vec_get num_calls_with_valid_data (int idx)) (\<lambda>c.
        bind_err (vec_set num_calls_with_valid_data idx (c + 1)) (\<lambda>num_calls_with_valid_data'.
        Inr (remapped_data', num_calls_with_valid_data'))))))"

text \<open>The body of the loop of \<^verbatim>\<open>remap_data_based_on_alleles\<close>.\<close>

definition remap_alleles_step ::
  "bool \<Rightarrow> (nat \<Rightarrow> nat \<Rightarrow> 'a \<Rightarrow> 'd \<Rightarrow> error + 'd) \<Rightarrow> 'a list \<Rightarrow> nat \<Rightarrow> CombineAllelesLUT \<Rightarrow> int \<Rightarrow> bool \<Rightarrow> 'a
     \<Rightarrow> nat \<Rightarrow> 'd \<times> nat list \<Rightarrow> error + 'd \<times> nat list" where
  "remap_alleles_step asserts put input_data input_call_idx lut non_ref_idx
       alt_alleles_only missing_value j st =
     (let allele_j = (if alt_alleles_only then j + 1 else j);
          input_j_allele = get_input_idx_for_merged lut input_call_idx (int allele_j)
      in if is_missing_value input_j_allele \<and> is_missing_value non_ref_idx
         then put_missing put input_call_idx j missing_value st
         else
           let input_j_allele = (if is_missing_value input_j_allele
                                 then non_ref_idx else input_j_allele)
           in bind_err (assert_err asserts (\<not> alt_alleles_only \<or> input_j_allele > 0)) (\<lambda>_.
                let input_j = (if alt_alleles_only then input_j_allele - 1 else input_j_allele)
                in put_value put input_data input_call_idx j input_j st))"

definition remap_data_based_on_alleles ::
  "bool \<Rightarrow> (nat \<Rightarrow> nat \<Rightarrow> 'a \<Rightarrow> 'd \<Rightarrow> error + 'd) \<Rightarrow> 'a list \<Rightarrow> nat \<Rightarrow> CombineAllelesLUT \<Rightarrow> nat \<Rightarrow> bool \<Rightarrow> bool
     \<Rightarrow> 'd \<times> nat list \<Rightarrow> 'a \<Rightarrow> error + 'd \<times> nat list" where
  "remap_data_based_on_alleles asserts put input_data input_call_idx lut num_merged_alleles
       non_ref_exists alt_alleles_only st missing_value =
     (let non_ref_idx =
            input_non_reference_idx lut input_call_idx num_merged_alleles non_ref_exists;
          len = (if alt_alleles_only then unsigned_minus_one num_merged_alleles else num_merged_alleles)
      in fold_err (remap_alleles_step asserts put input_data input_call_idx lut
                     non_ref_idx alt_alleles_only missing_value)
           [0..<len] st)"

text \<open>
  The loops of \<^verbatim>\<open>remap_data_based_on_genotype\<close>: the inner loop over \<^verbatim>\<open>allele_k\<close>, the loop
  that fills in missing values when \<^verbatim>\<open>allele_j\<close> has no local index, and the outer loop.
\<close>

definition remap_genotype_k_step ::
  "(nat \<Rightarrow> nat \<Rightarrow> 'a \<Rightarrow> 'd \<Rightarrow> error + 'd) \<Rightarrow> 'a list \<Rightarrow> nat \<Rightarrow> CombineAllelesLUT \<Rightarrow> int \<Rightarrow> 'a
     \<Rightarrow> nat \<Rightarrow> int \<Rightarrow> nat \<Rightarrow> 'd \<times> nat list \<Rightarrow> error + 'd \<times> nat list" where
  "remap_genotype_k_step put input_data input_call_idx lut non_ref_idx
       missing_value allele_j input_j_allele allele_k st =
     (let gt_idx = nat (bcf_alleles2gt (int allele_j) (int allele_k));
          input_k_allele = get_input_idx_for_merged lut input_call_idx (int allele_k)
      in if is_missing_value input_k_allele \<and> is_missing_value non_ref_idx
         then put_missing put input_call_idx gt_idx missing_value st
         else
           let input_k_allele = (if is_missing_value input_k_allele
                                 then non_ref_idx else input_k_allele)
           in put_value put input_data input_call_idx gt_idx
                (bcf_alleles2gt input_j_allele input_k_allele) st)"

definition remap_genotype_j_step ::
  "(nat \<Rightarrow> nat \<Rightarrow> 'a \<Rightarrow> 'd \<Rightarrow> error + 'd) \<Rightarrow> 'a list \<Rightarrow> nat \<Rightarrow> CombineAllelesLUT \<Rightarrow> nat \<Rightarrow> int \<Rightarrow> 'a
     \<Rightarrow> nat \<Rightarrow> 'd \<times> nat list \<Rightarrow> error + 'd \<times> nat list" where
  "remap_genotype_j_step put input_data input_call_idx lut num_merged_alleles
       non_ref_idx missing_value allele_j st =
     (let input_j_allele = get_input_idx_for_merged lut input_call_idx (int allele_j)
      in if is_missing_value input_j_allele \<and> is_missing_value non_ref_idx
         then fold_err (\<lambda>allele_k.
                put_missing put input_call_idx (nat (bcf_alleles2gt (int allele_j) (int allele_k))) missing_value)
                [allele_j..<num_merged_alleles] st
         else
           let input_j_allele = (if is_missing_value input_j_allele
                                 then non_ref_idx else input_j_allele)
           in fold_err (remap_genotype_k_step put input_data input_call_idx lut
                          non_ref_idx missing_value allele_j input_j_allele)
                [allele_j..<num_merged_alleles] st)"

definition remap_data_based_on_genotype ::
  "(nat \<Rightarrow> nat \<Rightarrow> 'a \<Rightarrow> 'd \<Rightarrow> error + 'd) \<Rightarrow> 'a list \<Rightarrow> nat \<Rightarrow> CombineAllelesLUT \<Rightarrow> nat \<Rightarrow> bool
     \<Rightarrow> 'd \<times> nat list \<Rightarrow> 'a \<Rightarrow> error + 'd \<times> nat list" where
  "remap_data_based_on_genotype put input_data input_call_idx lut num_merged_alleles
       non_ref_exists st missing_value =
     (let non_ref_idx =
            input_non_reference_idx lut input_call_idx num_merged_alleles non_ref_exists
      in fold_err (remap_genotype_j_step put input_data input_call_idx lut num_merged_alleles
                     non_ref_idx missing_value)
           [0..<num_merged_alleles] st)"


subsection \<open>The operator base class\<close>

text \<open>
  The members of \<^verbatim>\<open>SingleVariantOperatorBase\<close> that this file reads and writes. The
  class is declared outside this file; the members are the ones \<^verbatim>\<open>clear\<close> and
  \<^verbatim>\<open>operate\<close> name.
\<close>

record SingleVariantOperatorBase =
  m_alleles_LUT :: CombineAllelesLUT
  m_merged_reference_allele :: string
  m_merged_alt_alleles :: "string list"
  m_NON_REF_exists :: bool

definition clear :: "'z SingleVariantOperatorBase_scheme \<Rightarrow> 'z SingleVariantOperatorBase_scheme" where
  "clear op =
     op\<lparr>m_alleles_LUT := reset_luts (m_alleles_LUT op),
        m_merged_reference_allele := [],
        m_merged_alt_alleles := []\<rparr>"

text \<open>
  Modelled from the spec: the two-argument \<^verbatim>\<open>resize_luts_if_needed(rows, columns)\<close> of the
  table, declared outside this file; growth keeps the entries.
\<close>

definition resize_luts_if_needed2 :: "CombineAllelesLUT \<Rightarrow> nat \<Rightarrow> nat \<Rightarrow> CombineAllelesLUT" where
  "resize_luts_if_needed2 lut num_rows num_columns = lut"

text \<open>
  \<^verbatim>\<open>SingleVariantOperatorBase::operate\<close>: the reference merger runs on the member
  \<^verbatim>\<open>m_merged_reference_allele\<close> as it stands, then the alt merger on its result.
\<close>

definition SingleVariantOperatorBase_operate ::
  "bool \<Rightarrow> 'z SingleVariantOperatorBase_scheme \<Rightarrow> 'fld Variant
     \<Rightarrow> error + 'z SingleVariantOperatorBase_scheme" where
  "SingleVariantOperatorBase_operate debug op variant =
     (case merge_reference_allele debug variant (m_merged_reference_allele op) of
        Inl e \<Rightarrow> Inl e
      | Inr merged_reference_allele \<Rightarrow>
          let lut = resize_luts_if_needed2 (m_alleles_LUT op) (get_num_calls variant) 10 in
          (case merge_alt_alleles variant merged_reference_allele lut of
             (alts, lut', non_ref) \<Rightarrow>
               Inr (op\<lparr>m_alleles_LUT := lut',
                       m_merged_reference_allele := merged_reference_allele,
                       m_merged_alt_alleles := alts,
                       m_NON_REF_exists := non_ref\<rparr>)))"

subsection \<open>Queried fields\<close>

text \<open>
  Modelled from the spec: the field classes, the enumeration \<^verbatim>\<open>VariantFieldTypeEnum\<close> and
  the table \<^verbatim>\<open>g_variant_field_type_index_to_enum\<close> are declared outside this file. A field
  holds a vector of one element type; the eight types that the \<^verbatim>\<open>switch\<close> of
  \<^verbatim>\<open>GA4GHOperator::operate\<close> names are the constructors below, and \<open>OtherVec t\<close> is a
  field of any other element type, with the enumeration value \<open>t\<close> the table gives it.
  Floating point values are only copied, so they are their bit patterns.
\<close>

datatype VariantFieldTypeEnum =
    VARIANT_FIELD_INT | VARIANT_FIELD_INT64_T | VARIANT_FIELD_UNSIGNED | VARIANT_FIELD_UINT64_T
  | VARIANT_FIELD_FLOAT | VARIANT_FIELD_DOUBLE | VARIANT_FIELD_STRING | VARIANT_FIELD_CHAR
  | VARIANT_FIELD_OTHER nat

datatype VariantFieldData =
    IntVec "int list" | Int64Vec "int list" | UnsignedVec "nat list" | UInt64Vec "nat list"
  | FloatVec "32 word list" | DoubleVec "64 word list" | StringVec "string list" | CharVec "char list"
  | OtherVec nat

fun get_element_type :: "VariantFieldData \<Rightarrow> VariantFieldTypeEnum" where
  "get_element_type (IntVec xs) = VARIANT_FIELD_INT"
| "get_element_type (Int64Vec xs) = VARIANT_FIELD_INT64_T"
| "get_element_type (UnsignedVec xs) = VARIANT_FIELD_UNSIGNED"
| "get_element_type (UInt64Vec xs) = VARIANT_FIELD_UINT64_T"
| "get_element_type (FloatVec xs) = VARIANT_FIELD_FLOAT"
| "get_element_type (DoubleVec xs) = VARIANT_FIELD_DOUBLE"
| "get_element_type (StringVec xs) = VARIANT_FIELD_STRING"
| "get_element_type (CharVec xs) = VARIANT_FIELD_CHAR"
| "get_element_type (OtherVec t) = VARIANT_FIELD_OTHER t"

record VariantField =
  field_valid :: bool
  payload :: VariantFieldData

text \<open>\<^verbatim>\<open>std::vector::resize(n)\<close>: cut, or filled up with value-initialised elements.\<close>

definition resize_vec :: "nat \<Rightarrow> 'a \<Rightarrow> 'a list \<Rightarrow> 'a list" where
  "resize_vec n z xs = take n xs @ replicate (n - length xs) z"

fun resize_payload :: "nat \<Rightarrow> VariantFieldData \<Rightarrow> VariantFieldData" where
  "resize_payload n (IntVec xs) = IntVec (resize_vec n 0 xs)"
| "resize_payload n (Int64Vec xs) = Int64Vec (resize_vec n 0 xs)"
| "resize_payload n (UnsignedVec xs) = UnsignedVec (resize_vec n 0 xs)"
| "resize_payload n (UInt64Vec xs) = UInt64Vec (resize_vec n 0 xs)"
| "resize_payload n (FloatVec xs) = FloatVec (resize_vec n 0 xs)"
| "resize_payload n (DoubleVec xs) = DoubleVec (resize_vec n 0 xs)"
| "resize_payload n (StringVec xs) = StringVec (resize_vec n [] xs)"
| "resize_payload n (CharVec xs) = CharVec (resize_vec n (CHR 0x00) xs)"
| "resize_payload n (OtherVec t) = OtherVec t"

text \<open>
  \<^verbatim>\<open>get_field<VariantFieldPrimitiveVectorData<DataType>>(idx)->get()\<close> for each
  \<^verbatim>\<open>DataType\<close>: the vector, when the field has that element type.
\<close>

fun as_IntVec :: "VariantFieldData \<Rightarrow> int list option" where
  "as_IntVec (IntVec xs) = Some xs" | "as_IntVec d = None"

fun as_Int64Vec :: "VariantFieldData \<Rightarrow> int list option" where
  "as_Int64Vec (Int64Vec xs) = Some xs" | "as_Int64Vec d = None"

fun as_UnsignedVec :: "VariantFieldData \<Rightarrow> nat list option" where
  "as_UnsignedVec (UnsignedVec xs) = Some xs" | "as_UnsignedVec d = None"

fun as_UInt64Vec :: "VariantFieldData \<Rightarrow> nat list option" where
  "as_UInt64Vec (UInt64Vec xs) = Some xs" | "as_UInt64Vec d = None"

fun as_FloatVec :: "VariantFieldData \<Rightarrow> 32 word list option" where
  "as_FloatVec (FloatVec xs) = Some xs" | "as_FloatVec d = None"

fun as_DoubleVec :: "VariantFieldData \<Rightarrow> 64 word list option" where
  "as_DoubleVec (DoubleVec xs) = Some xs" | "as_DoubleVec d = None"

fun as_StringVec :: "VariantFieldData \<Rightarrow> string list option" where
  "as_StringVec (StringVec xs) = Some xs" | "as_StringVec d = None"

fun as_CharVec :: "VariantFieldData \<Rightarrow> char list option" where
  "as_CharVec (CharVec xs) = Some xs" | "as_CharVec d = None"

text \<open>
  Modelled from the spec: the query configuration is declared outside this file. For each
  queried field the spec has it say whether the length depends on the allele count (alt
  only or all alleles) or on the genotype count, and whether the field is the genotype
  call field; \<open>info_ptr = None\<close> is the null pointer of \<^verbatim>\<open>get_info_for_query_idx\<close>.
\<close>

record FieldInfo =
  is_length_allele_dependent :: bool
  is_length_genotype_dependent :: bool
  is_length_only_ALT_alleles_dependent :: bool
  get_num_elements_for_known_field_enum :: "nat \<Rightarrow> nat \<Rightarrow> nat"

record QueriedField =
  info_ptr :: "FieldInfo option"
  is_defined_known_field_enum :: bool
  is_GVCF_GT_IDX :: bool

type_synonym VariantQueryConfig = "QueriedField list"

text \<open>
  Modelled from the spec: the missing-value constants of the element types come from a
  library outside this repository (a reserved integer and reserved floating point bit
  patterns), so they are parameters. The casts of the integer constant to the other
  integer types are written out.
\<close>

record bcf_constants =
  bcf_int32_missing :: int
  bcf_float_missing_union_f :: "32 word"
  bcf_float_missing :: "64 word"

subsection \<open>The in-place destination\<close>

text \<open>The field \<open>q\<close> of call \<open>i\<close> of a variant, read and replaced.\<close>

definition get_call_field :: "VariantField Variant \<Rightarrow> nat \<Rightarrow> nat \<Rightarrow> error + VariantField option" where
  "get_call_field variant i q =
     bind_err (vec_get (calls variant) (int i)) (\<lambda>c. vec_get (call_fields c) (int q))"

definition set_call_field :: "VariantField Variant \<Rightarrow> nat \<Rightarrow> nat \<Rightarrow> VariantField \<Rightarrow> VariantField Variant" where
  "set_call_field variant i q f =
     variant\<lparr>calls := (calls variant)[i := (calls variant ! i)\<lparr>call_fields :=
                (call_fields (calls variant ! i))[q := Some f]\<rparr>]\<rparr>"

text \<open>
  The typed vector of field \<open>q\<close> of call \<open>i\<close>; \<open>proj\<close> is one of the functions
  \<open>as_IntVec\<close>, ... above.
\<close>

definition get_typed_field ::
  "(VariantFieldData \<Rightarrow> 'a list option) \<Rightarrow> VariantField Variant \<Rightarrow> nat \<Rightarrow> nat \<Rightarrow> error + 'a list" where
  "get_typed_field proj variant i q =
     bind_err (get_call_field variant i q) (\<lambda>f.
       case f of None \<Rightarrow> Inl NullField
       | Some fld \<Rightarrow> (case proj (payload fld) of None \<Rightarrow> Inl NullField | Some xs \<Rightarrow> Inr xs))"

text \<open>
  \<^verbatim>\<open>RemappedVariant::put_address\<close> followed by the store of one value of the type given by
  \<open>proj\<close> and its constructor \<open>ctor\<close>: the element \<open>allele_or_gt_idx\<close> of the queried field
  of the call, which must be valid and have the field.
\<close>

definition RemappedVariant_put ::
  "bool \<Rightarrow> (VariantFieldData \<Rightarrow> 'a list option) \<Rightarrow> ('a list \<Rightarrow> VariantFieldData) \<Rightarrow> nat
     \<Rightarrow> nat \<Rightarrow> nat \<Rightarrow> 'a \<Rightarrow> VariantField Variant \<Rightarrow> error + VariantField Variant" where
  "RemappedVariant_put asserts proj ctor m_queried_field_idx input_call_idx allele_or_gt_idx x m_variant =
     bind_err (vec_get (calls m_variant) (int input_call_idx)) (\<lambda>curr_call.
     bind_err (assert_err asserts (is_valid curr_call)) (\<lambda>_.
     bind_err (vec_get (call_fields curr_call) (int m_queried_field_idx)) (\<lambda>f.
     bind_err (assert_err asserts (f \<noteq> None)) (\<lambda>_.
       case f of None \<Rightarrow> Inl NullField
       | Some fld \<Rightarrow>
           (case proj (payload fld) of None \<Rightarrow> Inl NullField
            | Some xs \<Rightarrow>
                bind_err (vec_set xs allele_or_gt_idx x) (\<lambda>xs'.
                  Inr (set_call_field m_variant input_call_idx m_queried_field_idx
                         (fld\<lparr>payload := ctor xs'\<rparr>))))))))"

subsection \<open>The combination operator\<close>

text \<open>
  \<^verbatim>\<open>REMAP_MACRO(DataType, missing_value)\<close>: the input vector is read from the original
  variant, the remapped values are written into the copy.
\<close>

definition REMAP_MACRO ::
  "bool \<Rightarrow> (VariantFieldData \<Rightarrow> 'a list option) \<Rightarrow> ('a list \<Rightarrow> VariantFieldData) \<Rightarrow> 'a
     \<Rightarrow> FieldInfo \<Rightarrow> VariantField Variant \<Rightarrow> nat \<Rightarrow> nat \<Rightarrow> CombineAllelesLUT \<Rightarrow> nat \<Rightarrow> bool
     \<Rightarrow> VariantField Variant \<times> nat list \<Rightarrow> error + VariantField Variant \<times> nat list" where
  "REMAP_MACRO asserts proj ctor missing_value info variant query_field_idx curr_call_idx_in_variant
       lut num_merged_alleles non_ref_exists st =
     bind_err (get_typed_field proj variant curr_call_idx_in_variant query_field_idx) (\<lambda>input_data.
       if is_length_genotype_dependent info
       then remap_data_based_on_genotype (RemappedVariant_put asserts proj ctor query_field_idx)
              input_data curr_call_idx_in_variant lut num_merged_alleles non_ref_exists st missing_value
       else remap_data_based_on_alleles asserts (RemappedVariant_put asserts proj ctor query_field_idx)
              input_data curr_call_idx_in_variant lut num_merged_alleles non_ref_exists
              (is_length_only_ALT_alleles_dependent info) st missing_value)"

text \<open>
  The \<^verbatim>\<open>switch\<close> on the element type of the field of the copy. Every field has an entry
  in the type table (the constructors above), so the \<^verbatim>\<open>assert\<close> before the \<^verbatim>\<open>switch\<close> holds.
  The \<^verbatim>\<open>default\<close> branch writes \<^verbatim>\<open>Unhandled type\<close> and the value to \<^verbatim>\<open>std::cerr\<close> and calls
  \<^verbatim>\<open>exit(-1)\<close>.
\<close>

definition remap_switch ::
  "bool \<Rightarrow> bcf_constants \<Rightarrow> VariantFieldData \<Rightarrow> FieldInfo \<Rightarrow> VariantField Variant \<Rightarrow> nat \<Rightarrow> nat
     \<Rightarrow> CombineAllelesLUT \<Rightarrow> nat \<Rightarrow> bool
     \<Rightarrow> VariantField Variant \<times> nat list \<Rightarrow> error + VariantField Variant \<times> nat list" where
  "remap_switch asserts k d info variant q i lut n nr st =
     (case d of
        IntVec xs \<Rightarrow> REMAP_MACRO asserts as_IntVec IntVec (bcf_int32_missing k) info variant q i lut n nr st
      | Int64Vec xs \<Rightarrow> REMAP_MACRO asserts as_Int64Vec Int64Vec (bcf_int32_missing k) info variant q i lut n nr st
      | UnsignedVec xs \<Rightarrow>
          REMAP_MACRO asserts as_UnsignedVec UnsignedVec (nat (bcf_int32_missing k mod 2 ^ 32)) info variant q i lut n nr st
      | UInt64Vec xs \<Rightarrow>
          REMAP_MACRO asserts as_UInt64Vec UInt64Vec (nat (bcf_int32_missing k mod 2 ^ 64)) info variant q i lut n nr st
      | FloatVec xs \<Rightarrow>
          REMAP_MACRO asserts as_FloatVec FloatVec (bcf_float_missing_union_f k) info variant q i lut n nr st
      | DoubleVec xs \<Rightarrow> REMAP_MACRO asserts as_DoubleVec DoubleVec (bcf_float_missing k) info variant q i lut n nr st
      | StringVec xs \<Rightarrow> REMAP_MACRO asserts as_StringVec StringVec [] info variant q i lut n nr st
      | CharVec xs \<Rightarrow> REMAP_MACRO asserts as_CharVec CharVec (CHR 0x00) info variant q i lut n nr st
      | OtherVec t \<Rightarrow> Inl (ProcessExit (- 1) t))"

text \<open>
  The body of the loop over the valid calls of the copy, for a field whose length
  depends on the alleles: the field of the copy is resized, then remapped.
\<close>

definition remap_call_field ::
  "bool \<Rightarrow> bcf_constants \<Rightarrow> FieldInfo \<Rightarrow> VariantField Variant \<Rightarrow> nat \<Rightarrow> CombineAllelesLUT \<Rightarrow> nat \<Rightarrow> bool
     \<Rightarrow> nat \<Rightarrow> nat \<Rightarrow> VariantField Variant \<times> nat list \<Rightarrow> error + VariantField Variant \<times> nat list" where
  "remap_call_field asserts k info variant query_field_idx lut num_merged_alleles non_ref_exists
       field_size curr_call_idx_in_variant st =
     (case st of (copy, num_calls_with_valid_data) \<Rightarrow>
        bind_err (get_call_field copy curr_call_idx_in_variant query_field_idx) (\<lambda>curr_field.
          case curr_field of
            None \<Rightarrow> Inr st
          | Some fld \<Rightarrow>
              if \<not> field_valid fld then Inr st
              else
                let fld' = fld\<lparr>payload := resize_payload field_size (payload fld)\<rparr>;
                    copy' = set_call_field copy curr_call_idx_in_variant query_field_idx fld'
                in remap_switch asserts k (payload fld') info variant query_field_idx
                     curr_call_idx_in_variant lut num_merged_alleles non_ref_exists
                     (copy', num_calls_with_valid_data)))"

text \<open>The body of the loop over the valid calls of the copy for the genotype call field.\<close>

definition remap_call_GT ::
  "bool \<Rightarrow> VariantField Variant \<Rightarrow> nat \<Rightarrow> CombineAllelesLUT \<Rightarrow> nat \<Rightarrow> VariantField Variant
     \<Rightarrow> error + VariantField Variant" where
  "remap_call_GT asserts variant query_field_idx lut curr_call_idx_in_variant copy =
     bind_err (get_call_field copy curr_call_idx_in_variant query_field_idx) (\<lambda>curr_field.
       case curr_field of
         None \<Rightarrow> Inr copy
       | Some fld \<Rightarrow>
           if \<not> field_valid fld then Inr copy
           else
             bind_err (get_typed_field as_IntVec variant curr_call_idx_in_variant query_field_idx) (\<lambda>input_GT.
             bind_err (get_typed_field as_IntVec copy curr_call_idx_in_variant query_field_idx) (\<lambda>output_GT.
             bind_err (remap_GT_field asserts input_GT output_GT lut curr_call_idx_in_variant) (\<lambda>output_GT'.
               Inr (set_call_field copy curr_call_idx_in_variant query_field_idx
                      (fld\<lparr>payload := IntVec output_GT'\<rparr>))))))"

text \<open>The body of the loop over the queried fields.\<close>

definition remap_query_field ::
  "bool \<Rightarrow> bcf_constants \<Rightarrow> VariantQueryConfig \<Rightarrow> VariantField Variant \<Rightarrow> CombineAllelesLUT \<Rightarrow> nat \<Rightarrow> bool
     \<Rightarrow> nat \<Rightarrow> VariantField Variant \<Rightarrow> error + VariantField Variant" where
  "remap_query_field asserts k query_config variant lut num_merged_alleles non_ref_exists
       query_field_idx copy =
     (let qf = query_config ! query_field_idx in
      if is_defined_known_field_enum qf then
        bind_err
          (case info_ptr qf of
             None \<Rightarrow> Inr copy
           | Some info \<Rightarrow>
               if is_length_allele_dependent info then
                 let field_size = get_num_elements_for_known_field_enum info
                                    (unsigned_minus_one num_merged_alleles) 0
                 in bind_err
                      (fold_err (remap_call_field asserts k info variant query_field_idx lut
                                   num_merged_alleles non_ref_exists field_size)
                         (map fst (valid_calls copy)) (copy, replicate field_size 0))
                      (\<lambda>st. Inr (fst st))
               else Inr copy)
          (\<lambda>copy1.
             if is_GVCF_GT_IDX qf
             then fold_err (remap_call_GT asserts variant query_field_idx lut)
                    (map fst (valid_calls copy1)) copy1
             else Inr copy1)
      else Inr copy)"

text \<open>
  \<^verbatim>\<open>GA4GHOperator\<close> adds the vector \<^verbatim>\<open>m_variants\<close> of combined variants to the base class; a
  combined variant is the copy with its two common fields, REF and ALT.
  \<^verbatim>\<open>copy_from_variant\<close>, declared outside this file, makes the copy equal to the variant.
  The two merged members are moved into the common fields and are left empty.
\<close>

record GA4GHOperator = SingleVariantOperatorBase +
  m_variants :: "(VariantField Variant \<times> string \<times> string list) list"

definition GA4GHOperator_operate ::
  "bool \<Rightarrow> bool \<Rightarrow> bcf_constants \<Rightarrow> GA4GHOperator \<Rightarrow> VariantField Variant \<Rightarrow> VariantQueryConfig
     \<Rightarrow> error + GA4GHOperator" where
  "GA4GHOperator_operate debug asserts k op variant query_config =
     bind_err (SingleVariantOperatorBase_operate debug op variant) (\<lambda>op1.
       let copy = variant;
           num_merged_alleles = length (m_merged_alt_alleles op1) + 1
       in bind_err
            (fold_err (remap_query_field asserts k query_config variant (m_alleles_LUT op1)
                         num_merged_alleles (m_NON_REF_exists op1))
               [0..<length query_config] copy)
            (\<lambda>copy'.
               Inr (op1\<lparr>m_merged_reference_allele := [],
                        m_merged_alt_alleles := [],
                        m_variants := m_variants op1 @
                          [(copy', m_merged_reference_allele op1, m_merged_alt_alleles op1)]\<rparr>)))"

subsection \<open>The dummy genotyper\<close>

definition modify_reference_if_in_middle :: "'fld VariantCall \<Rightarrow> nat \<Rightarrow> 'fld VariantCall" where
  "modify_reference_if_in_middle curr_call current_start_position =
     (if call_column_begin curr_call < current_start_position then curr_call\<lparr>REF := ''N''\<rparr>
      else curr_call)"

text \<open>
  The statements of \<^verbatim>\<open>do_dummy_genotyping\<close> up to the call of \<^verbatim>\<open>merge_alt_alleles\<close>: every
  valid call goes through \<^verbatim>\<open>modify_reference_if_in_middle\<close>, then the two mergers run on a
  fresh string and a fresh table. The rest of the function (the medians of the remapped
  likelihoods and the output line) is not part of this development.
\<close>

definition do_dummy_genotyping_merge ::
  "bool \<Rightarrow> 'fld Variant \<Rightarrow> CombineAllelesLUT \<Rightarrow> error + 'fld Variant \<times> string \<times> string list \<times> CombineAllelesLUT \<times> bool" where
  "do_dummy_genotyping_merge debug variant fresh_lut =
     (let variant' = variant\<lparr>calls :=
            map (\<lambda>c. if is_valid c then modify_reference_if_in_middle c (column_begin variant) else c)
              (calls variant)\<rparr>
      in bind_err (merge_reference_allele debug variant' []) (\<lambda>merged_reference_allele.
           case merge_alt_alleles variant' merged_reference_allele fresh_lut of
             (alts, lut, non_ref) \<Rightarrow> Inr (variant', merged_reference_allele, alts, lut, non_ref)))"

subsection \<open>Auxiliary definitions for the proofs\<close>


fun first_index :: "'a list \<Rightarrow> 'a \<Rightarrow> nat" where
  "first_index [] x = 0"
| "first_index (y # ys) x = (if x = y then 0 else Suc (first_index ys x))"

definition seen_of :: "string list \<Rightarrow> string \<rightharpoonup> int" where
  "seen_of merged s =
     (if s = g_non_reference_allele then Some (- 1)
      else if s \<in> set merged then Some (1 + int (first_index merged s))
      else None)"

definition core_inv :: "alt_merge_state \<Rightarrow> (nat \<times> nat \<times> string) list \<Rightarrow> bool" where
  "core_inv st D =
     (merged_allele_idx st = length (merged_alt_alleles st) + 1 \<and>
      first_seen [] (filter (\<lambda>s. s \<noteq> g_non_reference_allele) (map (\<lambda>(i, p, s). s) D)) = merged_alt_alleles st \<and>
      seen_alleles st = seen_of (merged_alt_alleles st) \<and>
      (\<forall>(i, p, s) \<in> set D.
         input_to_merged (alleles_LUT st) i (int p) = the (seen_of (merged_alt_alleles st) s)))"

definition alt_init :: "'fld Variant \<Rightarrow> CombineAllelesLUT \<Rightarrow> alt_merge_state" where
  "alt_init variant lut0 =
     \<lparr>seen_alleles = [g_non_reference_allele \<mapsto> - 1],
      merged_alt_alleles = [],
      merged_allele_idx = 1,
      alleles_LUT = reset_luts lut0,
      input_non_reference_allele_idx = replicate (get_num_calls variant) (- 1),
      NON_REF_exists = False\<rparr>"

definition alt_loop :: "'fld Variant \<Rightarrow> string \<Rightarrow> CombineAllelesLUT \<Rightarrow> alt_merge_state" where
  "alt_loop variant mref lut0 = fold (merge_alt_call_step mref) (valid_calls variant) (alt_init variant lut0)"

definition non_ref_scan :: "(nat \<times> string) list \<Rightarrow> int \<Rightarrow> int" where
  "non_ref_scan xs r = fold (\<lambda>(p, a) r. if IS_NON_REF_ALLELE a then int p else r) xs r"

definition nr_inv :: "nat \<Rightarrow> alt_merge_state \<Rightarrow> (nat \<times> 'fld VariantCall) list \<Rightarrow> bool" where
  "nr_inv n st done =
     (length (input_non_reference_allele_idx st) = n \<and>
      (NON_REF_exists st \<longleftrightarrow> (\<exists>(i, c) \<in> set done. \<exists>a \<in> set (ALT c). IS_NON_REF_ALLELE a)) \<and>
      (\<forall>(i, c) \<in> set done. input_non_reference_allele_idx st ! i = non_ref_scan (enumerate 1 (ALT c)) (- 1)) \<and>
      (\<forall>i < n. i \<notin> fst ` set done \<longrightarrow> input_non_reference_allele_idx st ! i = - 1))"

definition merged_core :: "'fld Variant \<Rightarrow> string \<Rightarrow> string list" where
  "merged_core v mref =
     first_seen [] (filter (\<lambda>s. s \<noteq> g_non_reference_allele) (map (\<lambda>(i, p, s). s) (contributions v mref)))"

definition has_non_ref :: "'fld Variant \<Rightarrow> bool" where
  "has_non_ref v = (\<exists>(i, c) \<in> set (valid_calls v). \<exists>a \<in> set (ALT c). IS_NON_REF_ALLELE a)"








text \<open>
  What the remapping of the copy leaves alone: which calls are valid, which fields they
  have, which of these are valid, and the element type of each.
\<close>

definition field_shape :: "VariantField option \<Rightarrow> (bool \<times> VariantFieldTypeEnum) option" where
  "field_shape f = map_option (\<lambda>fld. (field_valid fld, get_element_type (payload fld))) f"

definition variant_shape :: "VariantField Variant \<Rightarrow> (bool \<times> (bool \<times> VariantFieldTypeEnum) option list) list" where
  "variant_shape v = map (\<lambda>c. (is_valid c, map field_shape (call_fields c))) (calls v)"

definition typed_pair :: "(VariantFieldData \<Rightarrow> 'a list option) \<Rightarrow> ('a list \<Rightarrow> VariantFieldData) \<Rightarrow> bool" where
  "typed_pair proj ctor = (\<forall>d xs xs'. proj d = Some xs \<longrightarrow> get_element_type (ctor xs') = get_element_type d)"

definition put_preserves :: "('d \<Rightarrow> bool) \<Rightarrow> (nat \<Rightarrow> nat \<Rightarrow> 'a \<Rightarrow> 'd \<Rightarrow> error + 'd) \<Rightarrow> bool" where
  "put_preserves P put = (\<forall>i idx x d d'. put i idx x d = Inr d' \<longrightarrow> P d \<longrightarrow> P d')"

subsection \<open>Example inputs\<close>

text \<open>
  Three calls at position 100: references \<^verbatim>\<open>T\<close> and \<^verbatim>\<open>TG\<close> (the example of the
  source's comments), and a call that began at 90, whose reference is the placeholder and
  whose only alt allele is the non-reference allele.
\<close>

definition example_call :: "nat \<Rightarrow> string \<Rightarrow> string list \<Rightarrow> 'fld VariantCall" where
  "example_call b r alts = \<lparr>is_valid = True, call_column_begin = b, REF = r, ALT = alts, call_fields = []\<rparr>"

definition example_variant_T_TG :: "unit Variant" where
  "example_variant_T_TG =
     \<lparr>column_begin = 100,
      calls = [example_call 100 ''T'' [''G''], example_call 100 ''TG'' [''T''], example_call 90 ''N'' [g_non_reference_allele]]\<rparr>"

definition empty_lut :: CombineAllelesLUT where
  "empty_lut = \<lparr>input_to_merged = (\<lambda>i k. lut_missing_value), merged_to_input = (\<lambda>i k. lut_missing_value)\<rparr>"


text \<open>An operator whose merged reference still holds the value of an earlier position.\<close>

definition stale_operator :: SingleVariantOperatorBase where
  "stale_operator =
     \<lparr>m_alleles_LUT = empty_lut, m_merged_reference_allele = ''GGG'',
      m_merged_alt_alleles = [], m_NON_REF_exists = False\<rparr>"

text \<open>
  The two calls of the source's comment on \<^verbatim>\<open>merge_alt_alleles\<close>: references \<^verbatim>\<open>T\<close> and
  \<^verbatim>\<open>TG\<close> with alt alleles \<^verbatim>\<open>G\<close> and \<^verbatim>\<open>T\<close>.
\<close>

definition scenario_T_TG :: "unit Variant" where
  "scenario_T_TG =
     \<lparr>column_begin = 100, calls = [example_call 100 ''T'' [''G''], example_call 100 ''TG'' [''T'']]\<rparr>"

text \<open>Two calls whose alt alleles \<^verbatim>\<open>G\<close> (padded) and \<^verbatim>\<open>GG\<close> are the same merged allele.\<close>

definition example_variant_dedup :: "unit Variant" where
  "example_variant_dedup =
     \<lparr>column_begin = 100, calls = [example_call 100 ''T'' [''G''], example_call 100 ''TG'' [''GG'', ''T'']]\<rparr>"



text \<open>
  A position 100 with a call that began at 90, whose reference \<^verbatim>\<open>ACG\<close> is that of
  position 90, and a call that begins at 100. No field is queried.
\<close>

definition example_variant_in_middle :: "VariantField Variant" where
  "example_variant_in_middle =
     \<lparr>column_begin = 100, calls = [example_call 90 ''ACG'' [''A''], example_call 100 ''T'' [''G'']]\<rparr>"

definition fresh_operator :: GA4GHOperator where
  "fresh_operator =
     \<lparr>m_alleles_LUT = empty_lut, m_merged_reference_allele = [], m_merged_alt_alleles = [],
      m_NON_REF_exists = False, m_variants = []\<rparr>"

text \<open>The same position after \<^verbatim>\<open>modify_reference_if_in_middle\<close> has gone over its calls.\<close>

definition modified_in_middle :: "VariantField Variant" where
  "modified_in_middle =
     \<lparr>column_begin = 100, calls = [example_call 90 ''N'' [''A''], example_call 100 ''T'' [''G'']]\<rparr>"

text \<open>
  A position with one call and two queried fields whose lengths depend on the number of
  alleles: the first has an element type outside the eight of the \<^verbatim>\<open>switch\<close>, the second
  holds integers.
\<close>

definition all_alleles_info :: FieldInfo where
  "all_alleles_info =
     \<lparr>is_length_allele_dependent = True, is_length_genotype_dependent = False,
      is_length_only_ALT_alleles_dependent = False,
      get_num_elements_for_known_field_enum = (\<lambda>num_ALT_alleles ploidy. num_ALT_alleles + 1)\<rparr>"

definition example_query_config :: VariantQueryConfig where
  "example_query_config =
     [\<lparr>info_ptr = Some all_alleles_info, is_defined_known_field_enum = True, is_GVCF_GT_IDX = False\<rparr>,
      \<lparr>info_ptr = Some all_alleles_info, is_defined_known_field_enum = True, is_GVCF_GT_IDX = False\<rparr>]"

definition example_variant_unhandled :: "VariantField Variant" where
  "example_variant_unhandled =
     \<lparr>column_begin = 100,
      calls = [\<lparr>is_valid = True, call_column_begin = 100, REF = ''T'', ALT = [''G''],
                call_fields = [Some \<lparr>field_valid = True, payload = OtherVec 0\<rparr>,
                               Some \<lparr>field_valid = True, payload = IntVec [7, 8]\<rparr>]\<rparr>]\<rparr>"

definition example_bcf_constants :: bcf_constants where
  "example_bcf_constants =
     \<lparr>bcf_int32_missing = - 2147483648, bcf_float_missing_union_f = 0x7F800001,
      bcf_float_missing = 0x41DFE00000400000\<rparr>"

section \<open>Verification\<close>

subsection \<open>Reference merger\<close>

lemma prefix_append_drop: "prefix m c \<Longrightarrow> m @ take (length c - length m) (drop (length m) c) = c"
  by (auto simp: prefix_def)






lemma valid_calls_example:
  "valid_calls example_variant_T_TG =
     [(0, example_call 100 ''T'' [''G'']), (1, example_call 100 ''TG'' [''T'']), (2, example_call 90 ''N'' [g_non_reference_allele])]"
  by (simp add: valid_calls_def example_variant_T_TG_def example_call_def)





lemma merge_reference_step_keeps:
  assumes "m0 \<noteq> []" "\<not> CHECK_IN_THE_MIDDLE_REF m0" "prefix m0 m" "\<not> CHECK_IN_THE_MIDDLE_REF m"
    and "merge_reference_step debug c (m, L) = Inr (m', L')"
  shows "prefix m0 m' \<and> \<not> CHECK_IN_THE_MIDDLE_REF m'"
proof -
  have mne: "m \<noteq> []" using assms(1,3) by auto
  have app: "\<not> CHECK_IN_THE_MIDDLE_REF (m @ x)" for x
  proof (cases x)
    case Nil then show ?thesis using assms(4) by simp
  next
    case (Cons a y)
    then have "length (m @ x) \<ge> 2" using mne by (cases m) auto
    moreover have "length ''N'' = 1" by simp
    ultimately have "m @ x \<noteq> ''N''" by (metis Suc_1 not_less_eq_eq order_refl)
    then show ?thesis by (simp add: CHECK_IN_THE_MIDDLE_REF_def)
  qed
  have "m' = m \<or> (\<exists>x. m' = m @ x)"
    using assms(4,5) by (auto simp: merge_reference_step_def Let_def split: if_splits)
  then show ?thesis using assms(3,4) app by (auto simp: prefix_def)
qed

lemma merge_reference_fold_keeps:
  assumes "m0 \<noteq> []" "\<not> CHECK_IN_THE_MIDDLE_REF m0"
  shows "prefix m0 m \<Longrightarrow> \<not> CHECK_IN_THE_MIDDLE_REF m \<Longrightarrow>
     fold_err (merge_reference_step debug) refs (m, L) = Inr (m', L') \<Longrightarrow> prefix m0 m'"
proof (induction refs arbitrary: m L)
  case Nil
  then show ?case by simp
next
  case (Cons c refs)
  from Cons.prems(3) obtain m1 L1 where s: "merge_reference_step debug c (m, L) = Inr (m1, L1)"
    and r: "fold_err (merge_reference_step debug) refs (m1, L1) = Inr (m', L')"
    by (auto split: sum.splits)
  from merge_reference_step_keeps[OF assms Cons.prems(1,2) s]
  have "prefix m0 m1" "\<not> CHECK_IN_THE_MIDDLE_REF m1" by auto
  from Cons.IH[OF this r] show ?case .
qed

lemma merge_reference_refs_keeps:
  assumes "\<not> CHECK_IN_THE_MIDDLE_REF m0" "merge_reference_refs debug refs m0 = Inr m"
  shows "prefix m0 m"
proof (cases "m0 = []")
  case True
  then show ?thesis by simp
next
  case False
  from assms(2) obtain L where "fold_err (merge_reference_step debug) refs (m0, length m0) = Inr (m, L)"
    by (auto simp: merge_reference_refs_def split: sum.splits)
  from merge_reference_fold_keeps[OF False assms(1) _ assms(1) this] show ?thesis by simp
qed

text \<open>
  Claim C10. \<^verbatim>\<open>merge_reference_allele\<close> never clears the string it is given: an incoming
  value that is not the placeholder stays a prefix of the result (it is only extended),
  and \<^verbatim>\<open>SingleVariantOperatorBase::operate\<close> hands the member
  \<^verbatim>\<open>m_merged_reference_allele\<close> to it as it stands. Only \<^verbatim>\<open>clear\<close> empties the member.
  So the contract of the merger holds for an empty incoming string only: on the operator
  that still holds \<^verbatim>\<open>GGG\<close> from an earlier position, the merged reference of the calls
  \<^verbatim>\<open>T\<close> and \<^verbatim>\<open>TG\<close> stays \<^verbatim>\<open>GGG\<close>, of which \<^verbatim>\<open>T\<close> is no prefix.
\<close>

theorem merge_reference_allele_never_clears:
  "(\<not> CHECK_IN_THE_MIDDLE_REF m0 \<longrightarrow> merge_reference_allele debug variant m0 = Inr m \<longrightarrow> prefix m0 m)
   \<and> (SingleVariantOperatorBase_operate debug op variant = Inr op' \<longrightarrow>
        merge_reference_allele debug variant (m_merged_reference_allele op) = Inr (m_merged_reference_allele op'))
   \<and> m_merged_reference_allele (clear op) = []
   \<and> (\<exists>op'. SingleVariantOperatorBase_operate False stale_operator example_variant_T_TG = Inr op'
          \<and> m_merged_reference_allele op' = ''GGG'' \<and> \<not> prefix ''T'' (m_merged_reference_allele op'))"
proof (intro conjI impI)
  assume "\<not> CHECK_IN_THE_MIDDLE_REF m0" "merge_reference_allele debug variant m0 = Inr m"
  then show "prefix m0 m"
    unfolding merge_reference_allele_def by (rule merge_reference_refs_keeps)
next
  assume "SingleVariantOperatorBase_operate debug op variant = Inr op'"
  then show "merge_reference_allele debug variant (m_merged_reference_allele op) = Inr (m_merged_reference_allele op')"
    by (auto simp: SingleVariantOperatorBase_operate_def Let_def split: sum.splits prod.splits)
next
  show "m_merged_reference_allele (clear op) = []" by (simp add: clear_def)
next
  have r: "merge_reference_allele False example_variant_T_TG ''GGG'' = Inr ''GGG''"
    by (simp add: merge_reference_allele_def valid_calls_example example_call_def
        merge_reference_refs_def merge_reference_step_def CHECK_IN_THE_MIDDLE_REF_def)
  obtain alts lut nr where a: "merge_alt_alleles example_variant_T_TG ''GGG''
      (resize_luts_if_needed2 (m_alleles_LUT stale_operator) (get_num_calls example_variant_T_TG) 10) = (alts, lut, nr)"
    by (metis prod_cases3)
  have "SingleVariantOperatorBase_operate False stale_operator example_variant_T_TG =
      Inr (stale_operator\<lparr>m_alleles_LUT := lut, m_merged_reference_allele := ''GGG'',
             m_merged_alt_alleles := alts, m_NON_REF_exists := nr\<rparr>)"
    using a r by (simp add: SingleVariantOperatorBase_operate_def Let_def stale_operator_def)
  then show "\<exists>op'. SingleVariantOperatorBase_operate False stale_operator example_variant_T_TG = Inr op'
          \<and> m_merged_reference_allele op' = ''GGG'' \<and> \<not> prefix ''T'' (m_merged_reference_allele op')"
    by (simp add: prefix_def)
qed

theorem merge_reference_allele_never_clears_witness:
  "\<not> CHECK_IN_THE_MIDDLE_REF ''T'' \<and> merge_reference_allele False example_variant_T_TG ''T'' = Inr ''TG''
   \<and> prefix ''T'' ''TG''"
proof -
  have h1: "\<not> CHECK_IN_THE_MIDDLE_REF ''T''" by (simp add: CHECK_IN_THE_MIDDLE_REF_def)
  have h2: "merge_reference_allele False example_variant_T_TG ''T'' = Inr ''TG''"
    by (simp add: merge_reference_allele_def valid_calls_example example_call_def
        merge_reference_refs_def merge_reference_step_def CHECK_IN_THE_MIDDLE_REF_def)
  from merge_reference_allele_never_clears[of "''T''" False example_variant_T_TG "''TG''"] h1 h2
  have "prefix ''T'' ''TG''" by blast
  with h1 h2 show ?thesis by blast
qed

subsection \<open>Alt allele merger\<close>

lemma core_invI:
  assumes "merged_allele_idx st = length (merged_alt_alleles st) + 1"
    and "first_seen [] (filter (\<lambda>s. s \<noteq> g_non_reference_allele) (map (\<lambda>(i, p, s). s) D)) = merged_alt_alleles st"
    and "seen_alleles st = seen_of (merged_alt_alleles st)"
    and "\<And>i p s. (i, p, s) \<in> set D \<Longrightarrow>
         input_to_merged (alleles_LUT st) i (int p) = the (seen_of (merged_alt_alleles st) s)"
  shows "core_inv st D"
  using assms unfolding core_inv_def by blast

lemma first_index_less: "x \<in> set xs \<Longrightarrow> first_index xs x < length xs"
  by (induction xs) auto

lemma first_index_nth: "x \<in> set xs \<Longrightarrow> xs ! first_index xs x = x"
  by (induction xs) auto

lemma first_index_append: "x \<in> set xs \<Longrightarrow> first_index (xs @ ys) x = first_index xs x"
  by (induction xs) auto

lemma first_index_snoc_new: "x \<notin> set xs \<Longrightarrow> first_index (xs @ [x]) x = length xs"
  by (induction xs) auto

lemma first_seen_snoc:
  "first_seen acc (xs @ [x]) =
     (if x \<in> set (first_seen acc xs) then first_seen acc xs else first_seen acc xs @ [x])"
  by (induction xs arbitrary: acc) auto

lemma set_first_seen: "set (first_seen acc xs) = set acc \<union> set xs"
  by (induction xs arbitrary: acc) auto

lemma distinct_first_seen: "distinct acc \<Longrightarrow> distinct (first_seen acc xs)"
  by (induction xs arbitrary: acc) auto

lemma seen_of_snoc_old:
  "s = g_non_reference_allele \<or> s \<in> set merged \<Longrightarrow> seen_of (merged @ [x]) s = seen_of merged s"
  by (auto simp: seen_of_def first_index_append)

lemma core_inv_non_ref:
  assumes "core_inv st D" "IS_NON_REF_ALLELE a"
  shows "core_inv (merge_alt_allele_step mref i rl (p, a) st) D"
  using assms by (simp add: core_inv_def merge_alt_allele_step_def)

lemma core_inv_allele:
  assumes inv: "core_inv st D" and a: "\<not> IS_NON_REF_ALLELE a"
    and fresh: "\<forall>(i', p', s) \<in> set D. (i', p') \<noteq> (i, p)"
  shows "core_inv (merge_alt_allele_step mref i rl (p, a) st) (D @ [(i, p, padded_allele mref rl a)])"
proof -
  let ?s = "padded_allele mref rl a"
  let ?m = "merged_alt_alleles st"
  have m: "first_seen [] (filter (\<lambda>s. s \<noteq> g_non_reference_allele) (map (\<lambda>(i, p, s). s) D)) = ?m"
    and seen: "seen_alleles st = seen_of ?m"
    and idx: "merged_allele_idx st = length ?m + 1"
    and lut: "\<And>i' p' s. (i', p', s) \<in> set D \<Longrightarrow> input_to_merged (alleles_LUT st) i' (int p') = the (seen_of ?m s)"
    using inv by (auto simp: core_inv_def)
  have old: "\<And>i' p' s. (i', p', s) \<in> set D \<Longrightarrow> s = g_non_reference_allele \<or> s \<in> set ?m"
    by (subst m[symmetric]) (force simp: set_first_seen)
  show ?thesis
  proof (cases "seen_alleles st ?s")
    case None
    then have new: "?s \<noteq> g_non_reference_allele" "?s \<notin> set ?m"
      using seen by (auto simp: seen_of_def split: if_splits)
    let ?st' = "merge_alt_allele_step mref i rl (p, a) st"
    have st': "merged_alt_alleles ?st' = ?m @ [?s]"
      "merged_allele_idx ?st' = length ?m + 2"
      "seen_alleles ?st' = (seen_of ?m)(?s \<mapsto> 1 + int (length ?m))"
      "input_to_merged (alleles_LUT ?st') = (input_to_merged (alleles_LUT st))(i := (input_to_merged (alleles_LUT st) i)(int p := 1 + int (length ?m)))"
      using None a idx seen
      by (simp_all add: merge_alt_allele_step_def Let_def add_input_merged_idx_pair_def resize_luts_if_needed_def)
    have 1: "first_seen [] (filter (\<lambda>s. s \<noteq> g_non_reference_allele) (map (\<lambda>(i, p, s). s) (D @ [(i, p, ?s)]))) = merged_alt_alleles ?st'"
      using new m by (simp add: st' first_seen_snoc)
    have 2: "seen_alleles ?st' = seen_of (merged_alt_alleles ?st')"
      using new by (auto simp: st' seen_of_def fun_eq_iff first_index_append first_index_snoc_new)
    have 3: "\<And>i' p' s. (i', p', s) \<in> set (D @ [(i, p, ?s)]) \<Longrightarrow>
        input_to_merged (alleles_LUT ?st') i' (int p') = the (seen_of (merged_alt_alleles ?st') s)"
    proof -
      fix i' p' s assume "(i', p', s) \<in> set (D @ [(i, p, ?s)])"
      then consider (old) "(i', p', s) \<in> set D" | (new) "i' = i" "p' = p" "s = ?s" by auto
      then show "input_to_merged (alleles_LUT ?st') i' (int p') = the (seen_of (merged_alt_alleles ?st') s)"
      proof cases
        case old
        then have ne: "(i', p') \<noteq> (i, p)" using fresh by blast
        have "seen_of (?m @ [?s]) s = seen_of ?m s" using old old[THEN \<open>\<And>i' p' s. (i', p', s) \<in> set D \<Longrightarrow> s = g_non_reference_allele \<or> s \<in> set ?m\<close>]
          by (intro seen_of_snoc_old)
        then show ?thesis using ne lut[OF old] by (auto simp: st')
      next
        case new
        then show ?thesis using \<open>?s \<noteq> g_non_reference_allele\<close> \<open>?s \<notin> set ?m\<close>
          by (simp add: st' seen_of_def first_index_snoc_new)
      qed
    qed
    show ?thesis
    proof (rule core_invI)
      show "merged_allele_idx ?st' = length (merged_alt_alleles ?st') + 1" by (simp add: st')
      show "seen_alleles ?st' = seen_of (merged_alt_alleles ?st')" by (rule 2)
    qed (fact 1, fact 3)
  next
    case (Some v)
    let ?st' = "merge_alt_allele_step mref i rl (p, a) st"
    have st': "merged_alt_alleles ?st' = ?m"
      "merged_allele_idx ?st' = length ?m + 1"
      "seen_alleles ?st' = seen_of ?m"
      "input_to_merged (alleles_LUT ?st') = (input_to_merged (alleles_LUT st))(i := (input_to_merged (alleles_LUT st) i)(int p := v))"
      using Some a idx seen
      by (simp_all add: merge_alt_allele_step_def Let_def add_input_merged_idx_pair_def)
    have v: "seen_of ?m ?s = Some v" using Some seen by simp
    then have known: "?s = g_non_reference_allele \<or> ?s \<in> set ?m"
      by (auto simp: seen_of_def split: if_splits)
    have 1: "first_seen [] (filter (\<lambda>s. s \<noteq> g_non_reference_allele) (map (\<lambda>(i, p, s). s) (D @ [(i, p, ?s)]))) = merged_alt_alleles ?st'"
      using known m by (auto simp add: st' first_seen_snoc)
    have 3: "\<And>i' p' s. (i', p', s) \<in> set (D @ [(i, p, ?s)]) \<Longrightarrow>
        input_to_merged (alleles_LUT ?st') i' (int p') = the (seen_of (merged_alt_alleles ?st') s)"
    proof -
      fix i' p' s assume "(i', p', s) \<in> set (D @ [(i, p, ?s)])"
      then consider (old) "(i', p', s) \<in> set D" | (new) "i' = i" "p' = p" "s = ?s" by auto
      then show "input_to_merged (alleles_LUT ?st') i' (int p') = the (seen_of (merged_alt_alleles ?st') s)"
      proof cases
        case old
        then have ne: "(i', p') \<noteq> (i, p)" using fresh by blast
        then show ?thesis using lut[OF old] by (auto simp: st')
      next
        case new
        then show ?thesis using v by (simp add: st')
      qed
    qed
    show ?thesis
    proof (rule core_invI)
      show "merged_allele_idx ?st' = length (merged_alt_alleles ?st') + 1" by (simp add: st')
      show "seen_alleles ?st' = seen_of (merged_alt_alleles ?st')" by (simp add: st')
    qed (fact 1, fact 3)
  qed
qed

lemma core_inv_alleles:
  assumes "core_inv st D" and "\<forall>(i', p', s) \<in> set D. i' = i \<longrightarrow> p' < n"
  shows "core_inv (fold (merge_alt_allele_step mref i rl) (enumerate n alts) st)
           (D @ map (\<lambda>(p, a). (i, p, padded_allele mref rl a))
                  (filter (\<lambda>(p, a). \<not> IS_NON_REF_ALLELE a) (enumerate n alts)))"
  using assms
proof (induction alts arbitrary: n st D)
  case Nil
  then show ?case by simp
next
  case (Cons a alts)
  show ?case
  proof (cases "IS_NON_REF_ALLELE a")
    case True
    have 1: "core_inv (merge_alt_allele_step mref i rl (n, a) st) D"
      using Cons.prems(1) True by (rule core_inv_non_ref)
    have 2: "\<forall>(i', p', s) \<in> set D. i' = i \<longrightarrow> p' < Suc n"
      using Cons.prems(2) by auto
    from Cons.IH[OF 1 2] True show ?thesis by simp
  next
    case False
    have fresh: "\<forall>(i', p', s) \<in> set D. (i', p') \<noteq> (i, n)"
      using Cons.prems(2) by auto
    have 1: "core_inv (merge_alt_allele_step mref i rl (n, a) st) (D @ [(i, n, padded_allele mref rl a)])"
      using Cons.prems(1) False fresh by (rule core_inv_allele)
    have 2: "\<forall>(i', p', s) \<in> set (D @ [(i, n, padded_allele mref rl a)]). i' = i \<longrightarrow> p' < Suc n"
      using Cons.prems(2) by auto
    from Cons.IH[OF 1 2] False show ?thesis by simp
  qed
qed

lemma core_inv_ref_mapping:
  assumes "core_inv st D" and "\<forall>(i', p', s) \<in> set D. i' \<noteq> i"
  shows "core_inv (st\<lparr>alleles_LUT := add_input_merged_idx_pair (alleles_LUT st) i 0 0\<rparr>) D"
proof (rule core_invI)
  fix i' p s assume d: "(i', p, s) \<in> set D"
  then have "i' \<noteq> i" using assms(2) by blast
  moreover have "input_to_merged (alleles_LUT st) i' (int p) = the (seen_of (merged_alt_alleles st) s)"
    using assms(1) d unfolding core_inv_def by blast
  ultimately show "input_to_merged (alleles_LUT (st\<lparr>alleles_LUT := add_input_merged_idx_pair (alleles_LUT st) i 0 0\<rparr>)) i' (int p)
      = the (seen_of (merged_alt_alleles (st\<lparr>alleles_LUT := add_input_merged_idx_pair (alleles_LUT st) i 0 0\<rparr>)) s)"
    by (simp add: add_input_merged_idx_pair_def)
qed (use assms(1) in \<open>simp_all add: core_inv_def\<close>)

lemma core_inv_call:
  assumes inv: "core_inv st D" and fresh: "\<forall>(i', p', s) \<in> set D. i' \<noteq> i"
  shows "core_inv (merge_alt_call_step mref (i, c) st) (D @ call_contributions mref (i, c))"
proof -
  have 1: "core_inv (st\<lparr>alleles_LUT := add_input_merged_idx_pair (alleles_LUT st) i 0 0\<rparr>) D"
    using inv fresh by (rule core_inv_ref_mapping)
  have 2: "\<forall>(i', p', s) \<in> set D. i' = i \<longrightarrow> p' < 1"
    using fresh by auto
  from core_inv_alleles[OF 1 2] show ?thesis
    by (simp add: merge_alt_call_step_def call_contributions_def Let_def)
qed

lemma call_contributions_fst: "(i', p, s) \<in> set (call_contributions mref (i, c)) \<Longrightarrow> i' = i"
  by (auto simp: call_contributions_def)

lemma core_inv_calls:
  assumes "core_inv st D" and "distinct (map fst cs)"
    and "\<forall>(i', p', s) \<in> set D. i' \<notin> fst ` set cs"
  shows "core_inv (fold (merge_alt_call_step mref) cs st) (D @ concat (map (call_contributions mref) cs))"
  using assms
proof (induction cs arbitrary: st D)
  case Nil
  then show ?case by simp
next
  case (Cons ic cs)
  obtain i c where ic: "ic = (i, c)" by (cases ic)
  have fresh: "\<forall>(i', p', s) \<in> set D. i' \<noteq> i"
    using Cons.prems(3) ic by auto
  have 1: "core_inv (merge_alt_call_step mref (i, c) st) (D @ call_contributions mref (i, c))"
    using Cons.prems(1) fresh by (rule core_inv_call)
  have 2: "distinct (map fst cs)" using Cons.prems(2) by simp
  have i: "i \<notin> fst ` set cs" using Cons.prems(2) ic by auto
  have 3: "\<forall>(i', p', s) \<in> set (D @ call_contributions mref (i, c)). i' \<notin> fst ` set cs"
    using Cons.prems(3) i by (auto dest: call_contributions_fst)
  from Cons.IH[OF 1 2 3] show ?case by (simp add: ic)
qed

lemma distinct_valid_calls: "distinct (map fst (valid_calls v))"
  unfolding valid_calls_def by (rule distinct_map_filter) (simp add: enumerate_eq_zip)

lemma valid_calls_nth:
  "(i, c) \<in> set (valid_calls v) \<Longrightarrow> i < length (calls v) \<and> c = calls v ! i \<and> is_valid c"
  by (auto simp: valid_calls_def in_set_enumerate_eq)

lemma core_inv_init: "core_inv (alt_init v lut0) []"
  by (auto simp: core_inv_def alt_init_def seen_of_def fun_eq_iff)

lemma core_inv_loop: "core_inv (alt_loop v mref lut0) (contributions v mref)"
  using core_inv_calls[OF core_inv_init distinct_valid_calls, of v mref v lut0]
  by (simp add: alt_loop_def contributions_def)

lemma non_ref_alleles:
  assumes "i < length (input_non_reference_allele_idx st)"
  shows "input_non_reference_allele_idx (fold (merge_alt_allele_step mref i rl) xs st) =
           (input_non_reference_allele_idx st)[i := non_ref_scan xs (input_non_reference_allele_idx st ! i)]
       \<and> NON_REF_exists (fold (merge_alt_allele_step mref i rl) xs st) =
           (NON_REF_exists st \<or> (\<exists>(p, a) \<in> set xs. IS_NON_REF_ALLELE a))"
  using assms
proof (induction xs arbitrary: st)
  case Nil
  then show ?case by (simp add: non_ref_scan_def)
next
  case (Cons x xs)
  obtain p a where x: "x = (p, a)" by (cases x)
  let ?st = "merge_alt_allele_step mref i rl (p, a) st"
  have v: "input_non_reference_allele_idx ?st =
      (if IS_NON_REF_ALLELE a then (input_non_reference_allele_idx st)[i := int p]
       else input_non_reference_allele_idx st)"
    and f: "NON_REF_exists ?st = (NON_REF_exists st \<or> IS_NON_REF_ALLELE a)"
    by (auto simp: merge_alt_allele_step_def Let_def split: option.splits)
  have len: "i < length (input_non_reference_allele_idx ?st)"
    using Cons.prems by (simp add: v)
  from Cons.IH[OF len] Cons.prems show ?case
    by (auto simp: x v f non_ref_scan_def)
qed

lemma ex_enumerate: "(\<exists>(p, a) \<in> set (enumerate n xs). P a) = (\<exists>a \<in> set xs. P a)"
proof -
  have "set xs = snd ` set (enumerate n xs)"
    by (metis list.set_map map_snd_enumerate)
  then show ?thesis by (auto simp: case_prod_beta)
qed

lemma non_ref_call:
  assumes "i < length (input_non_reference_allele_idx st)"
  shows "input_non_reference_allele_idx (merge_alt_call_step mref (i, c) st) =
           (input_non_reference_allele_idx st)[i := non_ref_scan (enumerate 1 (ALT c)) (input_non_reference_allele_idx st ! i)]
       \<and> NON_REF_exists (merge_alt_call_step mref (i, c) st) =
           (NON_REF_exists st \<or> (\<exists>a \<in> set (ALT c). IS_NON_REF_ALLELE a))"
proof -
  let ?st0 = "st\<lparr>alleles_LUT := add_input_merged_idx_pair (alleles_LUT st) i 0 0\<rparr>"
  have "i < length (input_non_reference_allele_idx ?st0)" using assms by simp
  from non_ref_alleles[OF this, of mref "length (REF c)" "enumerate 1 (ALT c)"]
  show ?thesis
    by (simp add: merge_alt_call_step_def Let_def ex_enumerate)
qed

lemma nr_inv_calls:
  assumes "nr_inv n st done" and "distinct (map fst (done @ cs))" and "\<forall>(i, c) \<in> set cs. i < n"
  shows "nr_inv n (fold (merge_alt_call_step mref) cs st) (done @ cs)"
  using assms
proof (induction cs arbitrary: st "done")
  case Nil
  then show ?case by simp
next
  case (Cons ic cs)
  obtain i c where ic: "ic = (i, c)" by (cases ic)
  let ?st = "merge_alt_call_step mref (i, c) st"
  let ?v = "input_non_reference_allele_idx st"
  have len: "length ?v = n" using Cons.prems(1) by (simp add: nr_inv_def)
  have i: "i < length ?v" using Cons.prems(3) ic len by simp
  have inew: "i \<notin> fst ` set done" using Cons.prems(2) ic by auto
  then have vi: "?v ! i = - 1" using Cons.prems(1) i len by (simp add: nr_inv_def)
  note step = non_ref_call[OF i, of mref c]
  have 1: "nr_inv n ?st (done @ [(i, c)])"
    unfolding nr_inv_def
  proof (intro conjI)
    show "length (input_non_reference_allele_idx ?st) = n" using step len by simp
    show "NON_REF_exists ?st = (\<exists>(i, c)\<in>set (done @ [(i, c)]). \<exists>a\<in>set (ALT c). IS_NON_REF_ALLELE a)"
      using step Cons.prems(1) by (auto simp: nr_inv_def)
    show "\<forall>(i', c') \<in> set (done @ [(i, c)]). input_non_reference_allele_idx ?st ! i' = non_ref_scan (enumerate 1 (ALT c')) (- 1)"
    proof (clarify)
      fix i' c' assume "(i', c') \<in> set (done @ [(i, c)])"
      then consider "(i', c') \<in> set done" | "i' = i" "c' = c" by auto
      then show "input_non_reference_allele_idx ?st ! i' = non_ref_scan (enumerate 1 (ALT c')) (- 1)"
      proof cases
        case 1
        then have "i' \<noteq> i" using inew by force
        moreover have "?v ! i' = non_ref_scan (enumerate 1 (ALT c')) (- 1)"
          using Cons.prems(1) 1 by (auto simp: nr_inv_def)
        ultimately show ?thesis using step by simp
      next
        case 2
        then show ?thesis using step i vi by simp
      qed
    qed
    show "\<forall>j<n. j \<notin> fst ` set (done @ [(i, c)]) \<longrightarrow> input_non_reference_allele_idx ?st ! j = - 1"
      using step Cons.prems(1) by (auto simp: nr_inv_def)
  qed
  have 2: "distinct (map fst ((done @ [(i, c)]) @ cs))" using Cons.prems(2) ic by simp
  have 3: "\<forall>(i, c) \<in> set cs. i < n" using Cons.prems(3) by simp
  from Cons.IH[OF 1 2 3] show ?case by (simp add: ic)
qed

lemma nr_inv_init: "nr_inv (get_num_calls v) (alt_init v lut0) []"
  by (simp add: nr_inv_def alt_init_def)

lemma nr_inv_loop: "nr_inv (get_num_calls v) (alt_loop v mref lut0) (valid_calls v)"
proof -
  have "\<forall>(i, c) \<in> set (valid_calls v). i < get_num_calls v"
    by (auto simp: get_num_calls_def dest: valid_calls_nth)
  from nr_inv_calls[where st = "alt_init v lut0" and ?done = "[]" and mref = mref, OF nr_inv_init _ this]
    distinct_valid_calls[of v]
  show ?thesis by (simp add: alt_loop_def)
qed

lemma non_ref_scan_enumerate:
  "non_ref_scan (enumerate n alts) r = q \<Longrightarrow>
     (q = r \<and> (\<forall>a \<in> set alts. \<not> IS_NON_REF_ALLELE a)) \<or>
     (\<exists>k < length alts. q = int (n + k) \<and> IS_NON_REF_ALLELE (alts ! k) \<and>
        (\<forall>k'. k < k' \<and> k' < length alts \<longrightarrow> \<not> IS_NON_REF_ALLELE (alts ! k')))"
proof (induction alts arbitrary: n r)
  case Nil
  then show ?case by (simp add: non_ref_scan_def)
next
  case (Cons a alts)
  let ?r = "if IS_NON_REF_ALLELE a then int n else r"
  have "non_ref_scan (enumerate (Suc n) alts) ?r = q"
    using Cons.prems by (simp add: non_ref_scan_def)
  from Cons.IH[OF this] show ?case
  proof
    assume h: "q = ?r \<and> (\<forall>a \<in> set alts. \<not> IS_NON_REF_ALLELE a)"
    show ?thesis
    proof (cases "IS_NON_REF_ALLELE a")
      case True
      have "0 < length (a # alts) \<and> q = int (n + 0) \<and> IS_NON_REF_ALLELE ((a # alts) ! 0) \<and>
        (\<forall>k'. 0 < k' \<and> k' < length (a # alts) \<longrightarrow> \<not> IS_NON_REF_ALLELE ((a # alts) ! k'))"
        using h True by (auto simp: nth_Cons')
      then show ?thesis by blast
    next
      case False
      then show ?thesis using h by simp
    qed
  next
    assume "\<exists>k<length alts. q = int (Suc n + k) \<and> IS_NON_REF_ALLELE (alts ! k) \<and>
        (\<forall>k'. k < k' \<and> k' < length alts \<longrightarrow> \<not> IS_NON_REF_ALLELE (alts ! k'))"
    then obtain k where k: "k < length alts" "q = int (Suc n + k)" "IS_NON_REF_ALLELE (alts ! k)"
      "\<forall>k'. k < k' \<and> k' < length alts \<longrightarrow> \<not> IS_NON_REF_ALLELE (alts ! k')" by blast
    have later: "\<not> IS_NON_REF_ALLELE ((a # alts) ! k')" if "Suc k < k'" "k' < length (a # alts)" for k'
    proof -
      from that(1) have "k' = Suc (k' - 1)" "k < k' - 1" by arith+
      moreover have "k' - 1 < length alts" using that by auto
      ultimately show ?thesis using k(4) by (metis nth_Cons_Suc)
    qed
    have "Suc k < length (a # alts) \<and> q = int (n + Suc k) \<and> IS_NON_REF_ALLELE ((a # alts) ! Suc k) \<and>
        (\<forall>k'. Suc k < k' \<and> k' < length (a # alts) \<longrightarrow> \<not> IS_NON_REF_ALLELE ((a # alts) ! k'))"
      using k later by auto
    then show ?thesis by blast
  qed
qed

lemma non_ref_scan_last:
  assumes "k < length alts" "IS_NON_REF_ALLELE (alts ! k)"
    "\<forall>k'. k < k' \<and> k' < length alts \<longrightarrow> \<not> IS_NON_REF_ALLELE (alts ! k')"
  shows "non_ref_scan (enumerate 1 alts) r = int k + 1"
proof -
  from non_ref_scan_enumerate[OF refl, of 1 alts r]
  show ?thesis
  proof
    assume "non_ref_scan (enumerate 1 alts) r = r \<and> (\<forall>a\<in>set alts. \<not> IS_NON_REF_ALLELE a)"
    then show ?thesis using assms(1,2) by auto
  next
    assume "\<exists>j<length alts. non_ref_scan (enumerate 1 alts) r = int (1 + j) \<and> IS_NON_REF_ALLELE (alts ! j) \<and>
      (\<forall>k'. j < k' \<and> k' < length alts \<longrightarrow> \<not> IS_NON_REF_ALLELE (alts ! k'))"
    then obtain j where j: "j < length alts" "non_ref_scan (enumerate 1 alts) r = int (1 + j)"
      "IS_NON_REF_ALLELE (alts ! j)" "\<forall>k'. j < k' \<and> k' < length alts \<longrightarrow> \<not> IS_NON_REF_ALLELE (alts ! k')"
      by blast
    have "j = k" using assms j by (meson linorder_neqE_nat)
    then show ?thesis using j by simp
  qed
qed

lemma non_ref_mapping_fold:
  assumes "distinct (map fst cs)"
  shows "input_to_merged (fold (add_non_ref_mapping v n) cs lut) i q =
          (if i \<in> fst ` set cs \<and> v ! i \<ge> 0 \<and> q = v ! i then int n else input_to_merged lut i q)"
  using assms
proof (induction cs arbitrary: lut)
  case Nil
  then show ?case by simp
next
  case (Cons jc cs)
  obtain j c where jc: "jc = (j, c)" by (cases jc)
  have d: "distinct (map fst cs)" and j: "j \<notin> fst ` set cs" using Cons.prems jc by auto
  show ?case
    using Cons.IH[OF d, of "add_non_ref_mapping v n (j, c) lut"] j
    by (auto simp: jc add_non_ref_mapping_def add_input_merged_idx_pair_def)
qed

lemma merge_alt_alleles_unfold:
  "merge_alt_alleles v mref lut0 =
     (let st = alt_loop v mref lut0 in
      if NON_REF_exists st
      then (merged_alt_alleles st @ [g_non_reference_allele],
            fold (add_non_ref_mapping (input_non_reference_allele_idx st) (Suc (length (merged_alt_alleles st))))
              (valid_calls v) (alleles_LUT st),
            True)
      else (merged_alt_alleles st, alleles_LUT st, False))"
  by (simp add: merge_alt_alleles_def alt_loop_def alt_init_def Let_def resize_luts_if_needed_def)

lemma alt_loop_merged: "merged_alt_alleles (alt_loop v mref lut0) = merged_core v mref"
  using core_inv_loop[of v mref lut0] by (simp add: core_inv_def merged_core_def)

lemma alt_loop_flag: "NON_REF_exists (alt_loop v mref lut0) = has_non_ref v"
  using nr_inv_loop[of v mref lut0] by (simp add: nr_inv_def has_non_ref_def)

lemma alt_loop_non_ref_idx:
  "(i, c) \<in> set (valid_calls v) \<Longrightarrow>
     input_non_reference_allele_idx (alt_loop v mref lut0) ! i = non_ref_scan (enumerate 1 (ALT c)) (- 1)"
  using nr_inv_loop[of v mref lut0] by (auto simp: nr_inv_def)

lemma alt_loop_lut:
  "(i, p, s) \<in> set (contributions v mref) \<Longrightarrow>
     input_to_merged (alleles_LUT (alt_loop v mref lut0)) i (int p) = the (seen_of (merged_core v mref) s)"
  using core_inv_loop[of v mref lut0] alt_loop_merged[of v mref lut0] by (auto simp: core_inv_def)

lemma contributions_mem:
  "(i, p, s) \<in> set (contributions v mref) \<longleftrightarrow>
     (\<exists>c. (i, c) \<in> set (valid_calls v) \<and> 1 \<le> p \<and> p \<le> length (ALT c) \<and>
          \<not> IS_NON_REF_ALLELE (ALT c ! (p - 1)) \<and>
          s = padded_allele mref (length (REF c)) (ALT c ! (p - 1)))"
proof -
  have one: "(i', p, s) \<in> set (call_contributions mref (j, c)) \<longleftrightarrow>
      (i' = j \<and> 1 \<le> p \<and> p \<le> length (ALT c) \<and> \<not> IS_NON_REF_ALLELE (ALT c ! (p - 1)) \<and>
       s = padded_allele mref (length (REF c)) (ALT c ! (p - 1)))" for i' j c
  proof
    assume "(i', p, s) \<in> set (call_contributions mref (j, c))"
    then obtain a where "(p, a) \<in> set (enumerate 1 (ALT c))" "\<not> IS_NON_REF_ALLELE a"
      "i' = j" "s = padded_allele mref (length (REF c)) a"
      by (auto simp: call_contributions_def)
    then show "i' = j \<and> 1 \<le> p \<and> p \<le> length (ALT c) \<and> \<not> IS_NON_REF_ALLELE (ALT c ! (p - 1)) \<and>
       s = padded_allele mref (length (REF c)) (ALT c ! (p - 1))"
      by (auto simp: in_set_enumerate_eq)
  next
    assume h: "i' = j \<and> 1 \<le> p \<and> p \<le> length (ALT c) \<and> \<not> IS_NON_REF_ALLELE (ALT c ! (p - 1)) \<and>
       s = padded_allele mref (length (REF c)) (ALT c ! (p - 1))"
    then have "(p, ALT c ! (p - 1)) \<in> set (enumerate 1 (ALT c))"
      by (auto simp: in_set_enumerate_eq)
    then have "(p, ALT c ! (p - 1)) \<in> set (filter (\<lambda>(p, a). \<not> IS_NON_REF_ALLELE a) (enumerate 1 (ALT c)))"
      using h by simp
    then have "(\<lambda>(p, a). (j, p, padded_allele mref (length (REF c)) a)) (p, ALT c ! (p - 1))
        \<in> set (call_contributions mref (j, c))"
      unfolding call_contributions_def prod.case set_map by (rule rev_image_eqI) simp
    then show "(i', p, s) \<in> set (call_contributions mref (j, c))" using h by simp
  qed
  have "(i, p, s) \<in> set (contributions v mref) \<longleftrightarrow>
      (\<exists>j c. (j, c) \<in> set (valid_calls v) \<and> (i, p, s) \<in> set (call_contributions mref (j, c)))"
    by (auto simp: contributions_def)
  also have "\<dots> \<longleftrightarrow> (\<exists>c. (i, c) \<in> set (valid_calls v) \<and> 1 \<le> p \<and> p \<le> length (ALT c) \<and>
          \<not> IS_NON_REF_ALLELE (ALT c ! (p - 1)) \<and>
          s = padded_allele mref (length (REF c)) (ALT c ! (p - 1)))"
    unfolding one by blast
  finally show ?thesis .
qed

lemma merge_alt_alleles_alts:
  "fst (merge_alt_alleles v mref lut0) =
     merged_core v mref @ (if has_non_ref v then [g_non_reference_allele] else [])"
  by (simp add: merge_alt_alleles_unfold Let_def alt_loop_merged alt_loop_flag)

lemma merge_alt_alleles_flag: "snd (snd (merge_alt_alleles v mref lut0)) = has_non_ref v"
  by (simp add: merge_alt_alleles_unfold Let_def alt_loop_flag)

lemma merge_alt_alleles_lut_non_ref:
  assumes ic: "(i, c) \<in> set (valid_calls v)" and k: "k < length (ALT c)" "IS_NON_REF_ALLELE (ALT c ! k)"
    "\<forall>k'. k < k' \<and> k' < length (ALT c) \<longrightarrow> \<not> IS_NON_REF_ALLELE (ALT c ! k')"
  shows "input_to_merged (fst (snd (merge_alt_alleles v mref lut0))) i (int k + 1) =
         int (length (fst (merge_alt_alleles v mref lut0)))"
proof -
  have h: "has_non_ref v" using ic k by (force simp: has_non_ref_def)
  have vi: "input_non_reference_allele_idx (alt_loop v mref lut0) ! i = int k + 1"
    using alt_loop_non_ref_idx[OF ic] non_ref_scan_last[OF k] by simp
  have i: "i \<in> fst ` set (valid_calls v)" using ic by force
  show ?thesis
    using h vi i
    by (simp add: merge_alt_alleles_unfold Let_def alt_loop_flag alt_loop_merged
        non_ref_mapping_fold[OF distinct_valid_calls])
qed

lemma merge_alt_alleles_lut_contribution:
  assumes "(i, p, s) \<in> set (contributions v mref)"
  shows "input_to_merged (fst (snd (merge_alt_alleles v mref lut0))) i (int p) =
         the (seen_of (merged_core v mref) s)"
proof (cases "has_non_ref v")
  case False
  then show ?thesis using alt_loop_lut[OF assms]
    by (simp add: merge_alt_alleles_unfold Let_def alt_loop_flag)
next
  case True
  from assms obtain c where c: "(i, c) \<in> set (valid_calls v)" "1 \<le> p" "p \<le> length (ALT c)"
      "\<not> IS_NON_REF_ALLELE (ALT c ! (p - 1))"
    unfolding contributions_mem by blast
  let ?r = "input_non_reference_allele_idx (alt_loop v mref lut0) ! i"
  have r: "?r = non_ref_scan (enumerate 1 (ALT c)) (- 1)" by (rule alt_loop_non_ref_idx[OF c(1)])
  have "int p \<noteq> ?r"
  proof
    assume eq: "int p = ?r"
    from non_ref_scan_enumerate[OF r[symmetric]]
    show False
    proof
      assume "?r = - 1 \<and> (\<forall>a\<in>set (ALT c). \<not> IS_NON_REF_ALLELE a)"
      then show False using eq by simp
    next
      assume "\<exists>k<length (ALT c). ?r = int (1 + k) \<and> IS_NON_REF_ALLELE (ALT c ! k) \<and>
         (\<forall>k'. k < k' \<and> k' < length (ALT c) \<longrightarrow> \<not> IS_NON_REF_ALLELE (ALT c ! k'))"
      then obtain k where "?r = int (1 + k)" "IS_NON_REF_ALLELE (ALT c ! k)" by blast
      then have "k = p - 1" using eq by simp
      then show False using c(4) \<open>IS_NON_REF_ALLELE (ALT c ! k)\<close> by simp
    qed
  qed
  then show ?thesis using True alt_loop_lut[OF assms]
    by (simp add: merge_alt_alleles_unfold Let_def alt_loop_flag
        non_ref_mapping_fold[OF distinct_valid_calls])
qed

lemma merged_core_distinct: "distinct (merged_core v mref)"
  by (simp add: merged_core_def distinct_first_seen)

lemma merged_core_no_placeholder: "g_non_reference_allele \<notin> set (merged_core v mref)"
  by (simp add: merged_core_def set_first_seen)

lemma seen_of_index:
  assumes "s \<in> set merged" "s \<noteq> g_non_reference_allele"
  shows "1 \<le> the (seen_of merged s) \<and> the (seen_of merged s) \<le> int (length merged) \<and>
         merged ! (nat (the (seen_of merged s)) - 1) = s"
proof -
  have "nat (1 + int (first_index merged s)) - 1 = first_index merged s" by simp
  then show ?thesis
    using assms first_index_less[of s merged] first_index_nth[of s merged]
    by (simp add: seen_of_def)
qed

lemma valid_calls_scenario:
  "valid_calls scenario_T_TG = [(0, example_call 100 ''T'' [''G'']), (1, example_call 100 ''TG'' [''T''])]"
  by (simp add: valid_calls_def scenario_T_TG_def example_call_def)

lemma valid_calls_dedup:
  "valid_calls example_variant_dedup = [(0, example_call 100 ''T'' [''G'']), (1, example_call 100 ''TG'' [''GG'', ''T''])]"
  by (simp add: valid_calls_def example_variant_dedup_def example_call_def)

lemma sequence_alleles_not_placeholder:
  "\<not> IS_NON_REF_ALLELE ''G''" "\<not> IS_NON_REF_ALLELE ''T''" "\<not> IS_NON_REF_ALLELE ''GG''"
  "IS_NON_REF_ALLELE g_non_reference_allele"
  "''GG'' \<noteq> g_non_reference_allele" "''T'' \<noteq> g_non_reference_allele"
  by (simp_all add: IS_NON_REF_ALLELE_def g_non_reference_allele_def)

lemma contributions_scenario:
  "contributions scenario_T_TG ''TG'' = [(0, 1, ''GG''), (1, 1, ''T'')]"
  by (simp add: contributions_def valid_calls_scenario call_contributions_def example_call_def
      sequence_alleles_not_placeholder padded_allele_def)

lemma contributions_dedup:
  "contributions example_variant_dedup ''TG'' = [(0, 1, ''GG''), (1, 1, ''GG''), (1, 2, ''T'')]"
  by (simp add: contributions_def valid_calls_dedup call_contributions_def example_call_def
      sequence_alleles_not_placeholder padded_allele_def)

lemma has_non_ref_scenario: "\<not> has_non_ref scenario_T_TG"
  by (simp add: has_non_ref_def valid_calls_scenario example_call_def sequence_alleles_not_placeholder)

text \<open>
  Claim C3. When some valid call has the non-reference placeholder among its alt
  alleles, \<^verbatim>\<open>merge_alt_alleles\<close> sets the flag, the placeholder is the last merged alt
  allele and stands nowhere before, and for every valid call the table maps the local
  index of the call's placeholder (the index the code records: the last one, should the
  call list it twice) to the last merged index, which is the number of merged alt alleles
  since the reference has index 0.
\<close>

theorem merge_alt_alleles_placeholder_last:
  assumes res: "merge_alt_alleles variant mref lut0 = (alts, lut, nr)"
    and ex: "\<exists>(i, c) \<in> set (valid_calls variant). \<exists>a \<in> set (ALT c). IS_NON_REF_ALLELE a"
  shows "nr \<and> alts \<noteq> [] \<and> last alts = g_non_reference_allele
     \<and> g_non_reference_allele \<notin> set (butlast alts)
     \<and> (\<forall>(i, c) \<in> set (valid_calls variant). \<forall>k < length (ALT c).
          IS_NON_REF_ALLELE (ALT c ! k)
          \<and> (\<forall>k'. k < k' \<and> k' < length (ALT c) \<longrightarrow> \<not> IS_NON_REF_ALLELE (ALT c ! k'))
          \<longrightarrow> get_merged_idx_for_input lut i (int k + 1) = int (length alts))"
proof -
  have h: "has_non_ref variant" using ex by (simp add: has_non_ref_def)
  have alts: "alts = merged_core variant mref @ [g_non_reference_allele]"
    using merge_alt_alleles_alts[of variant mref lut0] res h by simp
  have nr: "nr" using merge_alt_alleles_flag[of variant mref lut0] res h by simp
  have lut: "get_merged_idx_for_input lut i (int k + 1) = int (length alts)"
    if "(i, c) \<in> set (valid_calls variant)" "k < length (ALT c)" "IS_NON_REF_ALLELE (ALT c ! k)"
      "\<forall>k'. k < k' \<and> k' < length (ALT c) \<longrightarrow> \<not> IS_NON_REF_ALLELE (ALT c ! k')" for i c k
    using merge_alt_alleles_lut_non_ref[OF that, of mref lut0] res
    by (simp add: get_merged_idx_for_input_def)
  show ?thesis
    using nr alts merged_core_no_placeholder[of variant mref] lut by auto
qed

theorem merge_alt_alleles_placeholder_last_witness:
  "(2, example_call 90 ''N'' [g_non_reference_allele]) \<in> set (valid_calls example_variant_T_TG)
   \<and> (\<exists>alts lut nr. merge_alt_alleles example_variant_T_TG ''TG'' empty_lut = (alts, lut, nr)
        \<and> nr \<and> last alts = g_non_reference_allele
        \<and> get_merged_idx_for_input lut 2 1 = int (length alts))"
proof -
  obtain alts lut nr where res: "merge_alt_alleles example_variant_T_TG ''TG'' empty_lut = (alts, lut, nr)"
    by (metis prod_cases3)
  have ic: "(2, example_call 90 ''N'' [g_non_reference_allele]) \<in> set (valid_calls example_variant_T_TG)"
    by (simp add: valid_calls_example)
  have ex: "\<exists>(i, c) \<in> set (valid_calls example_variant_T_TG). \<exists>a \<in> set (ALT c). IS_NON_REF_ALLELE a"
    by (simp add: valid_calls_example example_call_def sequence_alleles_not_placeholder)
  note t = merge_alt_alleles_placeholder_last[OF res ex]
  from t have a: "nr" "last alts = g_non_reference_allele" by auto
  from t[THEN conjunct2, THEN conjunct2, THEN conjunct2, THEN conjunct2]
  have "\<forall>(i, c) \<in> set (valid_calls example_variant_T_TG). \<forall>k < length (ALT c).
          IS_NON_REF_ALLELE (ALT c ! k)
          \<and> (\<forall>k'. k < k' \<and> k' < length (ALT c) \<longrightarrow> \<not> IS_NON_REF_ALLELE (ALT c ! k'))
          \<longrightarrow> get_merged_idx_for_input lut i (int k + 1) = int (length alts)" .
  from bspec[OF this ic] have "get_merged_idx_for_input lut 2 1 = int (length alts)"
    by (auto simp add: example_call_def sequence_alleles_not_placeholder)
  with res ic a show ?thesis by blast
qed

text \<open>
  Claim C4. \<open>contributions\<close> lists the alt alleles that are not the placeholder, padded,
  in the order the loops visit them. Two contributions with the same string have the same
  merged index in the table; the merged alt alleles are distinct; and the merged alt
  alleles other than the placeholder are the contributed strings in first-seen order. A
  contributed string stands in the merged list at the index the table gives it.
\<close>

theorem merge_alt_alleles_dedup_order:
  assumes res: "merge_alt_alleles variant mref lut0 = (alts, lut, nr)"
  shows "(\<forall>(i, p, s) \<in> set (contributions variant mref). \<forall>(j, q, t) \<in> set (contributions variant mref).
            s = t \<longrightarrow> get_merged_idx_for_input lut i (int p) = get_merged_idx_for_input lut j (int q))
     \<and> distinct alts
     \<and> filter (\<lambda>s. s \<noteq> g_non_reference_allele) alts =
         first_seen [] (filter (\<lambda>s. s \<noteq> g_non_reference_allele) (map (\<lambda>(i, p, s). s) (contributions variant mref)))
     \<and> (\<forall>(i, p, s) \<in> set (contributions variant mref). s \<noteq> g_non_reference_allele \<longrightarrow>
            1 \<le> get_merged_idx_for_input lut i (int p) \<and> get_merged_idx_for_input lut i (int p) \<le> int (length alts)
            \<and> alts ! (nat (get_merged_idx_for_input lut i (int p)) - 1) = s)"
proof -
  let ?M = "merged_core variant mref"
  have alts: "alts = ?M @ (if has_non_ref variant then [g_non_reference_allele] else [])"
    using merge_alt_alleles_alts[of variant mref lut0] res by simp
  have lut: "get_merged_idx_for_input lut i (int p) = the (seen_of ?M s)"
    if "(i, p, s) \<in> set (contributions variant mref)" for i p s
    using merge_alt_alleles_lut_contribution[OF that, of lut0] res
    by (simp add: get_merged_idx_for_input_def)
  have 1: "\<forall>(i, p, s) \<in> set (contributions variant mref). \<forall>(j, q, t) \<in> set (contributions variant mref).
            s = t \<longrightarrow> get_merged_idx_for_input lut i (int p) = get_merged_idx_for_input lut j (int q)"
    using lut by auto
  have 2: "distinct alts"
    using alts merged_core_distinct[of variant mref] merged_core_no_placeholder[of variant mref] by simp
  have f: "filter (\<lambda>s. s \<noteq> g_non_reference_allele) ?M = ?M"
    using merged_core_no_placeholder[of variant mref] by (auto simp: filter_id_conv)
  have 3: "filter (\<lambda>s. s \<noteq> g_non_reference_allele) alts =
         first_seen [] (filter (\<lambda>s. s \<noteq> g_non_reference_allele) (map (\<lambda>(i, p, s). s) (contributions variant mref)))"
    using f by (simp add: alts) (simp add: merged_core_def)
  have 4: "1 \<le> get_merged_idx_for_input lut i (int p) \<and> get_merged_idx_for_input lut i (int p) \<le> int (length alts)
            \<and> alts ! (nat (get_merged_idx_for_input lut i (int p)) - 1) = s"
    if c: "(i, p, s) \<in> set (contributions variant mref)" and s: "s \<noteq> g_non_reference_allele" for i p s
  proof -
    have "s \<in> set ?M" using c s by (force simp: merged_core_def set_first_seen)
    from seen_of_index[OF this s] have k: "1 \<le> the (seen_of ?M s)" "the (seen_of ?M s) \<le> int (length ?M)"
      "?M ! (nat (the (seen_of ?M s)) - 1) = s" by auto
    then have "nat (the (seen_of ?M s)) - 1 < length ?M" by linarith
    then have "alts ! (nat (the (seen_of ?M s)) - 1) = s" using k(3) by (simp add: alts nth_append)
    then show ?thesis using k lut[OF c] by (simp add: alts)
  qed
  show ?thesis using 1 2 3 4 by blast
qed

theorem merge_alt_alleles_dedup_order_witness:
  "\<exists>alts lut nr. merge_alt_alleles example_variant_dedup ''TG'' empty_lut = (alts, lut, nr)
      \<and> get_merged_idx_for_input lut 0 1 = get_merged_idx_for_input lut 1 1
      \<and> alts = [''GG'', ''T'']"
proof -
  obtain alts lut nr where res: "merge_alt_alleles example_variant_dedup ''TG'' empty_lut = (alts, lut, nr)"
    by (metis prod_cases3)
  note t = merge_alt_alleles_dedup_order[OF res]
  have m0: "(0, 1, ''GG'') \<in> set (contributions example_variant_dedup ''TG'')"
    and m1: "(1, 1, ''GG'') \<in> set (contributions example_variant_dedup ''TG'')"
    by (simp_all add: contributions_dedup)
  from bspec[OF t[THEN conjunct1] m0]
  have "\<forall>(j, q, t) \<in> set (contributions example_variant_dedup ''TG'').
      ''GG'' = t \<longrightarrow> get_merged_idx_for_input lut 0 (int 1) = get_merged_idx_for_input lut j (int q)"
    by simp
  from bspec[OF this m1]
  have 1: "get_merged_idx_for_input lut 0 1 = get_merged_idx_for_input lut 1 1"
    by simp
  have "fst (merge_alt_alleles example_variant_dedup ''TG'' empty_lut) = [''GG'', ''T'']"
    by (simp add: merge_alt_alleles_alts merged_core_def contributions_dedup sequence_alleles_not_placeholder
       has_non_ref_def valid_calls_dedup example_call_def)
  then have 2: "alts = [''GG'', ''T'']" unfolding res by simp
  show ?thesis
    by (rule exI[of _ alts], rule exI[of _ lut], rule exI[of _ nr]) (simp only: res 1 2 simp_thms)
qed

text \<open>
  Claim C5. For a valid call whose reference is shorter than the merged reference, the
  string that is looked up and inserted for an alt allele other than the placeholder is
  the allele followed by the merged reference from the length of the call's reference on:
  that string stands in the merged list at the index the table gives the allele. With
  the references \<^verbatim>\<open>T\<close> and \<^verbatim>\<open>TG\<close> the merged reference is \<^verbatim>\<open>TG\<close> and the alt
  alleles \<^verbatim>\<open>G\<close> and \<^verbatim>\<open>T\<close> become \<^verbatim>\<open>GG\<close> and \<^verbatim>\<open>T\<close>.
\<close>

theorem merge_alt_alleles_suffix_padding:
  "(merge_alt_alleles variant mref lut0 = (alts, lut, nr) \<longrightarrow> (i, c) \<in> set (valid_calls variant) \<longrightarrow>
      length (REF c) < length mref \<longrightarrow> k < length (ALT c) \<longrightarrow> \<not> IS_NON_REF_ALLELE (ALT c ! k) \<longrightarrow>
      ALT c ! k @ drop (length (REF c)) mref \<noteq> g_non_reference_allele \<longrightarrow>
        padded_allele mref (length (REF c)) (ALT c ! k) = ALT c ! k @ drop (length (REF c)) mref
      \<and> 1 \<le> get_merged_idx_for_input lut i (int k + 1)
      \<and> get_merged_idx_for_input lut i (int k + 1) \<le> int (length alts)
      \<and> alts ! (nat (get_merged_idx_for_input lut i (int k + 1)) - 1) = ALT c ! k @ drop (length (REF c)) mref)
   \<and> merge_reference_allele debug scenario_T_TG [] = Inr ''TG''
   \<and> fst (merge_alt_alleles scenario_T_TG ''TG'' lut1) = [''GG'', ''T'']"
proof (intro conjI impI)
  assume res: "merge_alt_alleles variant mref lut0 = (alts, lut, nr)"
    and ic: "(i, c) \<in> set (valid_calls variant)" and short: "length (REF c) < length mref"
    and k: "k < length (ALT c)" "\<not> IS_NON_REF_ALLELE (ALT c ! k)"
    and ne: "ALT c ! k @ drop (length (REF c)) mref \<noteq> g_non_reference_allele"
  let ?s = "ALT c ! k @ drop (length (REF c)) mref"
  show pad: "padded_allele mref (length (REF c)) (ALT c ! k) = ?s"
    using short by (simp add: padded_allele_def)
  have mem: "(i, Suc k, ?s) \<in> set (contributions variant mref)"
    unfolding contributions_mem using ic k pad by auto
  have s: "?s \<in> set (merged_core variant mref)"
    using mem ne by (force simp: merged_core_def set_first_seen)
  have alts: "alts = merged_core variant mref @ (if has_non_ref variant then [g_non_reference_allele] else [])"
    using merge_alt_alleles_alts[of variant mref lut0] res by simp
  have lut: "get_merged_idx_for_input lut i (int k + 1) = the (seen_of (merged_core variant mref) ?s)"
    using merge_alt_alleles_lut_contribution[OF mem, of lut0] res
    by (simp add: get_merged_idx_for_input_def add.commute)
  from seen_of_index[OF s ne]
  have j: "1 \<le> the (seen_of (merged_core variant mref) ?s)"
    "the (seen_of (merged_core variant mref) ?s) \<le> int (length (merged_core variant mref))"
    "merged_core variant mref ! (nat (the (seen_of (merged_core variant mref) ?s)) - 1) = ?s" by auto
  then have "nat (the (seen_of (merged_core variant mref) ?s)) - 1 < length (merged_core variant mref)"
    by linarith
  then have nth: "alts ! (nat (the (seen_of (merged_core variant mref) ?s)) - 1) = ?s"
    using j(3) by (simp add: alts nth_append)
  show "1 \<le> get_merged_idx_for_input lut i (int k + 1)" using j(1) lut by simp
  show "get_merged_idx_for_input lut i (int k + 1) \<le> int (length alts)" using j(2) lut by (simp add: alts)
  show "alts ! (nat (get_merged_idx_for_input lut i (int k + 1)) - 1) = ?s" using nth lut by simp
next
  show "merge_reference_allele debug scenario_T_TG [] = Inr ''TG''"
    by (simp add: merge_reference_allele_def valid_calls_scenario example_call_def
        merge_reference_refs_def merge_reference_step_def CHECK_IN_THE_MIDDLE_REF_def)
next
  show "fst (merge_alt_alleles scenario_T_TG ''TG'' lut1) = [''GG'', ''T'']"
    by (simp add: merge_alt_alleles_alts has_non_ref_scenario merged_core_def contributions_scenario
        sequence_alleles_not_placeholder)
qed

theorem merge_alt_alleles_suffix_padding_witness:
  "(0, example_call 100 ''T'' [''G'']) \<in> set (valid_calls scenario_T_TG)
   \<and> (\<exists>alts lut nr. merge_alt_alleles scenario_T_TG ''TG'' empty_lut = (alts, lut, nr)
        \<and> alts ! (nat (get_merged_idx_for_input lut 0 1) - 1) = ''GG'')"
proof -
  obtain alts lut nr where res: "merge_alt_alleles scenario_T_TG ''TG'' empty_lut = (alts, lut, nr)"
    by (metis prod_cases3)
  have ic: "(0, example_call 100 ''T'' [''G'']) \<in> set (valid_calls scenario_T_TG)"
    by (simp add: valid_calls_scenario)
  have "alts ! (nat (get_merged_idx_for_input lut 0 (int 0 + 1)) - 1) =
      ALT (example_call 100 ''T'' [''G'']) ! 0 @ drop (length (REF (example_call 100 ''T'' [''G'']))) ''TG''"
    using merge_alt_alleles_suffix_padding[of scenario_T_TG "''TG''" empty_lut alts lut nr 0
        "example_call 100 ''T'' [''G'']" 0] res ic
    by (simp add: example_call_def sequence_alleles_not_placeholder)
  then have "alts ! (nat (get_merged_idx_for_input lut 0 1) - 1) = ''GG''"
    by (simp add: example_call_def)
  with res ic show ?thesis by blast
qed

subsection \<open>Genotype call remapper\<close>

lemma remap_GT_loop:
  assumes "length out = n" "length inp = n"
  shows "k \<le> n \<Longrightarrow> length out = n \<Longrightarrow>
     fold_err (remap_GT_step asserts inp lut c) [k..<n] out =
       (if asserts \<and> (\<exists>i. k \<le> i \<and> i < n \<and> is_missing_value (get_merged_idx_for_input lut c (inp ! i)))
        then Inl AssertionFailure
        else Inr (take k out @ map (get_merged_idx_for_input lut c) (drop k inp)))"
proof (induction "n - k" arbitrary: k out)
  case 0
  then show ?case using assms(2) by simp
next
  case (Suc d)
  then have k: "k < n" by simp
  have up: "[k..<n] = k # [Suc k..<n]" using k by (simp add: upt_conv_Cons)
  let ?t = "get_merged_idx_for_input lut c (inp ! k)"
  show ?case
  proof (cases "asserts \<and> is_missing_value ?t")
    case True
    then have "remap_GT_step asserts inp lut c k out = Inl AssertionFailure"
      by (simp add: remap_GT_step_def assert_err_def bind_err_def)
    moreover have "\<exists>i. k \<le> i \<and> i < n \<and> is_missing_value (get_merged_idx_for_input lut c (inp ! i))"
      using True k by blast
    ultimately show ?thesis using True by (simp add: up)
  next
    case False
    have step: "remap_GT_step asserts inp lut c k out = Inr (out[k := ?t])"
      using False k Suc.prems(2) by (auto simp: remap_GT_step_def assert_err_def bind_err_def vec_set_def)
    have d: "d = n - Suc k" using Suc.hyps(2) by simp
    have IH: "fold_err (remap_GT_step asserts inp lut c) [Suc k..<n] (out[k := ?t]) =
       (if asserts \<and> (\<exists>i. Suc k \<le> i \<and> i < n \<and> is_missing_value (get_merged_idx_for_input lut c (inp ! i)))
        then Inl AssertionFailure
        else Inr (take (Suc k) (out[k := ?t]) @ map (get_merged_idx_for_input lut c) (drop (Suc k) inp)))"
      using Suc.hyps(1)[OF d] k Suc.prems(2) by simp
    have ex: "(\<exists>i. k \<le> i \<and> i < n \<and> is_missing_value (get_merged_idx_for_input lut c (inp ! i))) \<longleftrightarrow>
       is_missing_value ?t \<or> (\<exists>i. Suc k \<le> i \<and> i < n \<and> is_missing_value (get_merged_idx_for_input lut c (inp ! i)))"
      by (metis Suc_leI le_neq_implies_less Suc_leD k order_refl)
    have l: "take (Suc k) (out[k := ?t]) @ map (get_merged_idx_for_input lut c) (drop (Suc k) inp) =
        take k out @ map (get_merged_idx_for_input lut c) (drop k inp)"
      using k Suc.prems(2) assms(2)
      by (simp add: take_Suc_conv_app_nth Cons_nth_drop_Suc[symmetric])
    show ?thesis using False by (auto simp: up step IH ex l)
  qed
qed

lemma remap_GT_field_eq:
  "remap_GT_field asserts inp out lut c =
     (if asserts \<and> length inp \<noteq> length out then Inl AssertionFailure
      else if length inp = length out then
        (if asserts \<and> (\<exists>i < length inp. is_missing_value (get_merged_idx_for_input lut c (inp ! i)))
         then Inl AssertionFailure
         else Inr (map (get_merged_idx_for_input lut c) inp))
      else fold_err (remap_GT_step asserts inp lut c) [0..<length inp] out)"
proof (cases "length inp = length out")
  case True
  have "fold_err (remap_GT_step asserts inp lut c) [0..<length inp] out =
       (if asserts \<and> (\<exists>i. 0 \<le> i \<and> i < length inp \<and> is_missing_value (get_merged_idx_for_input lut c (inp ! i)))
        then Inl AssertionFailure
        else Inr (take 0 out @ map (get_merged_idx_for_input lut c) (drop 0 inp)))"
    by (rule remap_GT_loop) (simp_all add: True[symmetric])
  then have "fold_err (remap_GT_step asserts inp lut c) [0..<length inp] out =
       (if asserts \<and> (\<exists>i < length inp. is_missing_value (get_merged_idx_for_input lut c (inp ! i)))
        then Inl AssertionFailure
        else Inr (map (get_merged_idx_for_input lut c) inp))"
    by simp
  then show ?thesis
    unfolding remap_GT_field_def assert_err_def bind_err_def using True by simp
next
  case False
  then show ?thesis by (simp add: remap_GT_field_def assert_err_def bind_err_def)
qed

text \<open>
  Claim C7, as the code has it. On vectors of equal length (what the first
  \<^verbatim>\<open>assert\<close> demands), a build with asserts returns the output vector, which has the
  length of the input and holds the local-to-merged translation of every input entry, when
  no translation is the MISSING sentinel, and stops with an assertion failure when some
  translation is the sentinel. A build without asserts (\<^verbatim>\<open>NDEBUG\<close>) returns the
  translations whatever they are.
\<close>

theorem remap_GT_field_translates:
  assumes "length input_GT = length output_GT"
  shows "((\<forall>i < length input_GT. \<not> is_missing_value (get_merged_idx_for_input lut c (input_GT ! i))) \<longrightarrow>
            remap_GT_field True input_GT output_GT lut c = Inr (map (get_merged_idx_for_input lut c) input_GT))
       \<and> ((\<exists>i < length input_GT. is_missing_value (get_merged_idx_for_input lut c (input_GT ! i))) \<longrightarrow>
            remap_GT_field True input_GT output_GT lut c = Inl AssertionFailure)
       \<and> remap_GT_field False input_GT output_GT lut c = Inr (map (get_merged_idx_for_input lut c) input_GT)"
proof (cases "\<exists>i < length input_GT. is_missing_value (get_merged_idx_for_input lut c (input_GT ! i))")
  case True
  then show ?thesis using assms by (auto simp: remap_GT_field_eq)
next
  case False
  then show ?thesis using assms by (auto simp: remap_GT_field_eq)
qed

theorem remap_GT_field_translates_witness:
  "length [0, 1 :: int] = length [5, 5 :: int]
   \<and> remap_GT_field True [0, 1] [5, 5] (add_input_merged_idx_pair (add_input_merged_idx_pair empty_lut 0 0 0) 0 1 2) 0 = Inr [0, 2]
   \<and> remap_GT_field True [0, 3] [5, 5] (add_input_merged_idx_pair (add_input_merged_idx_pair empty_lut 0 0 0) 0 1 2) 0 = Inl AssertionFailure"
proof -
  let ?lut = "add_input_merged_idx_pair (add_input_merged_idx_pair empty_lut 0 0 0) 0 1 2"
  have e: "get_merged_idx_for_input ?lut 0 0 = 0" "get_merged_idx_for_input ?lut 0 1 = 2"
    "get_merged_idx_for_input ?lut 0 3 = lut_missing_value"
    by (simp_all add: get_merged_idx_for_input_def add_input_merged_idx_pair_def empty_lut_def)
  have m: "\<not> is_missing_value 0" "\<not> is_missing_value 2" "is_missing_value lut_missing_value"
    by (simp_all add: is_missing_value_def lut_missing_value_def)
  have len: "length [0, 1 :: int] = length [5, 5 :: int]" "length [0, 3 :: int] = length [5, 5 :: int]" by simp_all
  have a: "\<forall>i < length [0, 1 :: int]. \<not> is_missing_value (get_merged_idx_for_input ?lut 0 ([0, 1] ! i))"
    using e m by (simp add: less_Suc_eq all_conj_distrib)
  have b: "\<exists>i < length [0, 3 :: int]. is_missing_value (get_merged_idx_for_input ?lut 0 ([0, 3] ! i))"
    using e m by (intro exI[of _ 1]) simp
  have 1: "remap_GT_field True [0, 1] [5, 5] ?lut 0 = Inr [0, 2]"
    using remap_GT_field_translates[OF len(1), of ?lut 0, THEN conjunct1] a e by simp
  have 2: "remap_GT_field True [0, 3] [5, 5] ?lut 0 = Inl AssertionFailure"
    using remap_GT_field_translates[OF len(2), of ?lut 0, THEN conjunct2, THEN conjunct1] b by blast
  show ?thesis using 1 2 by simp
qed

text \<open>
  Claim C7 as stated fails in a build without asserts: the genotype call 1 of a sample
  whose table has no entry for it is translated to the sentinel, which is written to the
  output, and the call returns normally.
\<close>

theorem remap_GT_field_silent_sentinel:
  "remap_GT_field False [1] [0] empty_lut 0 = Inr [lut_missing_value]
   \<and> is_missing_value (get_merged_idx_for_input empty_lut 0 1)"
  by (simp add: remap_GT_field_eq get_merged_idx_for_input_def empty_lut_def is_missing_value_def)

subsection \<open>Field remappers\<close>
































subsection \<open>The combination operator\<close>

lemma valid_calls_in_middle:
  "valid_calls example_variant_in_middle = [(0, example_call 90 ''ACG'' [''A'']), (1, example_call 100 ''T'' [''G''])]"
  by (simp add: valid_calls_def example_variant_in_middle_def example_call_def)

lemma sequence_alleles_not_placeholder2:
  "\<not> IS_NON_REF_ALLELE ''A''" "''A'' \<noteq> g_non_reference_allele" "''GCG'' \<noteq> g_non_reference_allele"
  "''G'' \<noteq> g_non_reference_allele"
  by (simp_all add: IS_NON_REF_ALLELE_def g_non_reference_allele_def)

lemma merge_reference_in_middle:
  "merge_reference_allele False example_variant_in_middle [] = Inr ''ACG''"
  by (simp add: merge_reference_allele_def valid_calls_in_middle example_call_def
      merge_reference_refs_def merge_reference_step_def CHECK_IN_THE_MIDDLE_REF_def)

lemma merge_reference_in_middle_debug:
  "merge_reference_allele True example_variant_in_middle [] = Inl (InvalidArgument ''T'' ''ACG'')"
  by (simp add: merge_reference_allele_def valid_calls_in_middle example_call_def
      merge_reference_refs_def merge_reference_step_def CHECK_IN_THE_MIDDLE_REF_def)

lemma merge_alts_in_middle:
  "fst (merge_alt_alleles example_variant_in_middle ''ACG'' lut0) = [''A'', ''GCG'']"
  by (simp add: merge_alt_alleles_alts merged_core_def contributions_def call_contributions_def
      valid_calls_in_middle example_call_def sequence_alleles_not_placeholder sequence_alleles_not_placeholder2
      padded_allele_def has_non_ref_def)

lemma valid_calls_modified:
  "valid_calls modified_in_middle = [(0, example_call 90 ''N'' [''A'']), (1, example_call 100 ''T'' [''G''])]"
  by (simp add: valid_calls_def modified_in_middle_def example_call_def)

lemma merge_alts_modified:
  "fst (merge_alt_alleles modified_in_middle ''T'' lut0) = [''A'', ''G'']"
  by (simp add: merge_alt_alleles_alts merged_core_def contributions_def call_contributions_def
      valid_calls_modified example_call_def sequence_alleles_not_placeholder sequence_alleles_not_placeholder2
      padded_allele_def has_non_ref_def)

text \<open>
  Claim C9 does not hold of the code. \<^verbatim>\<open>GA4GHOperator::operate\<close> starts with the reference
  merger (through \<^verbatim>\<open>SingleVariantOperatorBase::operate\<close>) on the calls as they are: for the
  position 100 with a call that began at 90 and carries the reference \<^verbatim>\<open>ACG\<close>, the combined
  variant gets the merged reference \<^verbatim>\<open>ACG\<close> and the other call's alt allele \<^verbatim>\<open>G\<close> is padded
  to \<^verbatim>\<open>GCG\<close>; a build with \<^verbatim>\<open>DEBUG\<close> throws, since \<^verbatim>\<open>T\<close> is no prefix of \<^verbatim>\<open>ACG\<close>. The
  sibling \<^verbatim>\<open>do_dummy_genotyping\<close> does substitute the placeholder first, and merges to the
  reference \<^verbatim>\<open>T\<close> with the alt alleles \<^verbatim>\<open>A\<close> and \<^verbatim>\<open>G\<close>.
\<close>

theorem GA4GHOperator_operate_no_placeholder_substitution:
  "(\<exists>op'. GA4GHOperator_operate False asserts k fresh_operator example_variant_in_middle [] = Inr op'
      \<and> m_variants op' = [(example_variant_in_middle, ''ACG'', [''A'', ''GCG''])])
   \<and> GA4GHOperator_operate True asserts k fresh_operator example_variant_in_middle []
        = Inl (InvalidArgument ''T'' ''ACG'')
   \<and> (\<exists>lut nr. do_dummy_genotyping_merge debug example_variant_in_middle empty_lut
        = Inr (modified_in_middle, ''T'', [''A'', ''G''], lut, nr))"
proof (intro conjI)
  obtain alts lut nr where a: "merge_alt_alleles example_variant_in_middle ''ACG''
      (resize_luts_if_needed2 (m_alleles_LUT fresh_operator) (get_num_calls example_variant_in_middle) 10) = (alts, lut, nr)"
    by (metis prod_cases3)
  have alts: "alts = [''A'', ''GCG'']" using merge_alts_in_middle[of "resize_luts_if_needed2 (m_alleles_LUT fresh_operator) (get_num_calls example_variant_in_middle) 10"] a by simp
  have "GA4GHOperator_operate False asserts k fresh_operator example_variant_in_middle [] =
      Inr (fresh_operator\<lparr>m_alleles_LUT := lut, m_merged_reference_allele := [],
             m_merged_alt_alleles := [], m_NON_REF_exists := nr,
             m_variants := [(example_variant_in_middle, ''ACG'', [''A'', ''GCG''])]\<rparr>)"
    using a alts merge_reference_in_middle
    by (simp add: GA4GHOperator_operate_def SingleVariantOperatorBase_operate_def Let_def bind_err_def
        fresh_operator_def)
  then show "\<exists>op'. GA4GHOperator_operate False asserts k fresh_operator example_variant_in_middle [] = Inr op'
      \<and> m_variants op' = [(example_variant_in_middle, ''ACG'', [''A'', ''GCG''])]"
    by simp
next
  show "GA4GHOperator_operate True asserts k fresh_operator example_variant_in_middle []
        = Inl (InvalidArgument ''T'' ''ACG'')"
    using merge_reference_in_middle_debug
    by (simp add: GA4GHOperator_operate_def SingleVariantOperatorBase_operate_def Let_def bind_err_def
        fresh_operator_def)
next
  have v: "example_variant_in_middle\<lparr>calls :=
            map (\<lambda>c. if is_valid c then modify_reference_if_in_middle c (column_begin example_variant_in_middle) else c)
              (calls example_variant_in_middle)\<rparr> = modified_in_middle"
    by (simp add: example_variant_in_middle_def modified_in_middle_def example_call_def
        modify_reference_if_in_middle_def)
  have r: "merge_reference_allele debug modified_in_middle [] = Inr ''T''"
    by (simp add: merge_reference_allele_def valid_calls_modified example_call_def
      merge_reference_refs_def merge_reference_step_def CHECK_IN_THE_MIDDLE_REF_def)
  obtain alts lut nr where a: "merge_alt_alleles modified_in_middle ''T'' empty_lut = (alts, lut, nr)"
    by (metis prod_cases3)
  have alts: "alts = [''A'', ''G'']" using merge_alts_modified[of empty_lut] a by simp
  show "\<exists>lut nr. do_dummy_genotyping_merge debug example_variant_in_middle empty_lut
        = Inr (modified_in_middle, ''T'', [''A'', ''G''], lut, nr)"
    unfolding do_dummy_genotyping_merge_def Let_def v using r a alts by (simp add: bind_err_def)
qed

lemma fold_err_invariant:
  assumes "fold_err f xs s = Inr r" and "I s"
    and "\<And>x s s'. x \<in> set xs \<Longrightarrow> I s \<Longrightarrow> f x s = Inr s' \<Longrightarrow> I s'"
  shows "I r"
  using assms
proof (induction xs arbitrary: s)
  case Nil
  then show ?case by simp
next
  case (Cons x xs)
  from Cons.prems(1) obtain s' where s': "f x s = Inr s'" "fold_err f xs s' = Inr r"
    by (auto split: sum.splits)
  have "I s'" using Cons.prems(3)[OF _ Cons.prems(2) s'(1)] by simp
  moreover have "\<And>x s s'. x \<in> set xs \<Longrightarrow> I s \<Longrightarrow> f x s = Inr s' \<Longrightarrow> I s'"
    using Cons.prems(3) by (meson list.set_intros(2))
  ultimately show ?case using Cons.IH[OF s'(2)] by blast
qed

lemma fold_err_fails:
  assumes "I s"
    and "\<And>y s s'. y \<in> set xs \<Longrightarrow> I s \<Longrightarrow> f y s = Inr s' \<Longrightarrow> I s'"
    and "x \<in> set xs"
    and "\<And>s. I s \<Longrightarrow> \<exists>e. f x s = Inl e"
  shows "\<exists>e. fold_err f xs s = Inl e"
  using assms(1,2,3)
proof (induction xs arbitrary: s)
  case Nil
  then show ?case by simp
next
  case (Cons y ys)
  show ?case
  proof (cases "f y s")
    case (Inl e)
    then show ?thesis by simp
  next
    case (Inr s')
    have Is': "I s'" using Cons.prems(2)[OF _ Cons.prems(1) Inr] by simp
    show ?thesis
    proof (cases "x = y")
      case True
      then show ?thesis using assms(4)[OF Cons.prems(1)] Inr by simp
    next
      case False
      then have "x \<in> set ys" using Cons.prems(3) by simp
      moreover have "\<And>y s s'. y \<in> set ys \<Longrightarrow> I s \<Longrightarrow> f y s = Inr s' \<Longrightarrow> I s'"
        using Cons.prems(2) by (meson list.set_intros(2))
      ultimately have "\<exists>e. fold_err f ys s' = Inl e" using Cons.IH[OF Is'] by blast
      then show ?thesis using Inr by simp
    qed
  qed
qed

lemma get_call_field_Some:
  "get_call_field v i q = Inr f \<longleftrightarrow>
     i < length (calls v) \<and> q < length (call_fields (calls v ! i)) \<and> f = call_fields (calls v ! i) ! q"
  by (auto simp: get_call_field_def bind_err_def vec_get_def split: sum.splits)

lemma shape_set_call_field:
  assumes "get_call_field v i q = Inr (Some f)" and "field_shape (Some f') = field_shape (Some f)"
  shows "variant_shape (set_call_field v i q f') = variant_shape v"
proof -
  from assms(1) have i: "i < length (calls v)" and q: "q < length (call_fields (calls v ! i))"
    and f: "call_fields (calls v ! i) ! q = Some f"
    by (simp_all add: get_call_field_Some)
  let ?c = "calls v ! i"
  have "map field_shape ((call_fields ?c)[q := Some f']) = map field_shape (call_fields ?c)"
    using q f assms(2) by (simp add: map_update list_update_same_conv)
  then have "(\<lambda>c. (is_valid c, map field_shape (call_fields c))) (?c\<lparr>call_fields := (call_fields ?c)[q := Some f']\<rparr>)
      = (\<lambda>c. (is_valid c, map field_shape (call_fields c))) ?c"
    by simp
  then show ?thesis
    using i unfolding variant_shape_def set_call_field_def
    by (simp add: map_update list_update_same_conv)
qed

lemma shape_nth:
  assumes "variant_shape a = variant_shape b"
  shows "length (calls a) = length (calls b)"
    and "i < length (calls a) \<Longrightarrow> is_valid (calls a ! i) = is_valid (calls b ! i)"
    and "i < length (calls a) \<Longrightarrow>
           map field_shape (call_fields (calls a ! i)) = map field_shape (call_fields (calls b ! i))"
proof -
  show len: "length (calls a) = length (calls b)"
    using assms unfolding variant_shape_def by (rule map_eq_imp_length_eq)
  assume i: "i < length (calls a)"
  have "variant_shape a ! i = variant_shape b ! i" using assms by (rule arg_cong)
  then have "(is_valid (calls a ! i), map field_shape (call_fields (calls a ! i))) =
      (is_valid (calls b ! i), map field_shape (call_fields (calls b ! i)))"
    using i len unfolding variant_shape_def by (simp only: nth_map)
  then show "is_valid (calls a ! i) = is_valid (calls b ! i)"
    and "map field_shape (call_fields (calls a ! i)) = map field_shape (call_fields (calls b ! i))"
    by (simp_all only: prod.inject)
qed

lemma shape_get_call_field:
  assumes "variant_shape a = variant_shape b"
  shows "map_sum id field_shape (get_call_field a i q) = map_sum id field_shape (get_call_field b i q)"
proof -
  note len = shape_nth(1)[OF assms]
  show ?thesis
  proof (cases "i < length (calls a)")
    case False
    then show ?thesis using len by (simp add: get_call_field_def bind_err_def vec_get_def)
  next
    case True
    note fs = shape_nth(3)[OF assms True]
    have l2: "length (call_fields (calls a ! i)) = length (call_fields (calls b ! i))"
      using fs by (rule map_eq_imp_length_eq)
    show ?thesis
    proof (cases "q < length (call_fields (calls a ! i))")
      case False
      then show ?thesis using True len l2 by (simp add: get_call_field_def bind_err_def vec_get_def)
    next
      case q: True
      have "map field_shape (call_fields (calls a ! i)) ! q = map field_shape (call_fields (calls b ! i)) ! q"
        using fs by (rule arg_cong)
      then have "field_shape (call_fields (calls a ! i) ! q) = field_shape (call_fields (calls b ! i) ! q)"
        using q l2 by (simp only: nth_map)
      then show ?thesis using True len q l2 by (simp add: get_call_field_def bind_err_def vec_get_def)
    qed
  qed
qed

lemma shape_valid_calls:
  assumes "variant_shape a = variant_shape b"
  shows "map fst (valid_calls a) = map fst (valid_calls b)"
proof -
  have "map fst (valid_calls v) = map fst (filter snd (enumerate 0 (map fst (variant_shape v))))" for v :: "VariantField Variant"
  proof -
    have "map fst (filter (\<lambda>(i, c). is_valid c) (enumerate n cs)) =
        map fst (filter snd (enumerate n (map is_valid cs)))" for n and cs :: "VariantField VariantCall list"
      by (induction cs arbitrary: n) auto
    then show ?thesis by (simp add: valid_calls_def variant_shape_def comp_def)
  qed
  then show ?thesis using assms by simp
qed

lemma shape_RemappedVariant_put:
  assumes "RemappedVariant_put asserts proj ctor q i idx x v = Inr v'" and "typed_pair proj ctor"
  shows "variant_shape v' = variant_shape v"
proof -
  from assms(1) obtain fld xs xs' where g: "get_call_field v i q = Inr (Some fld)"
    and p: "proj (payload fld) = Some xs" and v': "v' = set_call_field v i q (fld\<lparr>payload := ctor xs'\<rparr>)"
    unfolding RemappedVariant_put_def get_call_field_def
    by (auto simp: bind_err_def split: sum.splits option.splits)
  have "field_shape (Some (fld\<lparr>payload := ctor xs'\<rparr>)) = field_shape (Some fld)"
    using p assms(2) by (simp add: field_shape_def typed_pair_def)
  from shape_set_call_field[OF g this] show ?thesis by (simp add: v')
qed

lemma put_missing_preserves:
  assumes "put_preserves P put" "put_missing put i idx x st = Inr st'" "P (fst st)"
  shows "P (fst st')"
  using assms by (cases st) (auto simp: put_missing_def put_preserves_def bind_err_def split: sum.splits)

lemma put_value_preserves:
  assumes "put_preserves P put" "put_value put input_data i idx j st = Inr st'" "P (fst st)"
  shows "P (fst st')"
  using assms
  by (cases st) (auto simp: put_value_def put_preserves_def bind_err_def split: sum.splits)

lemma remap_alleles_step_preserves:
  assumes "put_preserves P put"
    "remap_alleles_step asserts put input_data i lut nri alt_only missing j st = Inr st'" "P (fst st)"
  shows "P (fst st')"
proof (cases "is_missing_value (get_input_idx_for_merged lut i (int (if alt_only then j + 1 else j)))
      \<and> is_missing_value nri")
  case True
  then have "put_missing put i j missing st = Inr st'"
    using assms(2) by (simp add: remap_alleles_step_def Let_def)
  from put_missing_preserves[OF assms(1) this assms(3)] show ?thesis .
next
  case False
  then obtain a where "put_value put input_data i j a st = Inr st'"
    using assms(2) by (auto simp: remap_alleles_step_def Let_def bind_err_def split: sum.splits)
  from put_value_preserves[OF assms(1) this assms(3)] show ?thesis .
qed

lemma remap_data_based_on_alleles_preserves:
  assumes "put_preserves P put"
    "remap_data_based_on_alleles asserts put input_data i lut n nr alt_only st missing = Inr st'" "P (fst st)"
  shows "P (fst st')"
proof -
  have "fold_err (remap_alleles_step asserts put input_data i lut (input_non_reference_idx lut i n nr)
          alt_only missing) [0..<(if alt_only then unsigned_minus_one n else n)] st = Inr st'"
    using assms(2) unfolding remap_data_based_on_alleles_def Let_def .
  then show ?thesis
  proof (rule fold_err_invariant[where I = "\<lambda>s. P (fst s)"])
    show "P (fst st)" by fact
  next
    fix x s s'
    assume "P (fst s)" and "remap_alleles_step asserts put input_data i lut (input_non_reference_idx lut i n nr)
          alt_only missing x s = Inr s'"
    then show "P (fst s')" by (rule remap_alleles_step_preserves[OF assms(1), rotated])
  qed
qed

lemma remap_genotype_k_step_preserves:
  assumes "put_preserves P put"
    "remap_genotype_k_step put input_data i lut nri missing j a k st = Inr st'" "P (fst st)"
  shows "P (fst st')"
proof (cases "is_missing_value (get_input_idx_for_merged lut i (int k)) \<and> is_missing_value nri")
  case True
  then have "put_missing put i (nat (bcf_alleles2gt (int j) (int k))) missing st = Inr st'"
    using assms(2) by (simp add: remap_genotype_k_step_def Let_def)
  from put_missing_preserves[OF assms(1) this assms(3)] show ?thesis .
next
  case False
  then obtain b where "put_value put input_data i (nat (bcf_alleles2gt (int j) (int k))) b st = Inr st'"
    using assms(2) by (auto simp: remap_genotype_k_step_def Let_def)
  from put_value_preserves[OF assms(1) this assms(3)] show ?thesis .
qed

lemma remap_genotype_j_step_preserves:
  assumes "put_preserves P put"
    "remap_genotype_j_step put input_data i lut n nri missing j st = Inr st'" "P (fst st)"
  shows "P (fst st')"
proof (cases "is_missing_value (get_input_idx_for_merged lut i (int j)) \<and> is_missing_value nri")
  case True
  then have "fold_err (\<lambda>k. put_missing put i (nat (bcf_alleles2gt (int j) (int k))) missing) [j..<n] st = Inr st'"
    using assms(2) by (simp add: remap_genotype_j_step_def Let_def)
  then show ?thesis
  proof (rule fold_err_invariant[where I = "\<lambda>s. P (fst s)"])
    show "P (fst st)" by fact
  next
    fix x s s'
    assume "P (fst s)" and "put_missing put i (nat (bcf_alleles2gt (int j) (int x))) missing s = Inr s'"
    then show "P (fst s')" by (rule put_missing_preserves[OF assms(1), rotated])
  qed
next
  case False
  then obtain a where "fold_err (remap_genotype_k_step put input_data i lut nri missing j a) [j..<n] st = Inr st'"
    using assms(2) by (auto simp: remap_genotype_j_step_def Let_def)
  then show ?thesis
  proof (rule fold_err_invariant[where I = "\<lambda>s. P (fst s)"])
    show "P (fst st)" by fact
  next
    fix x s s'
    assume "P (fst s)" and "remap_genotype_k_step put input_data i lut nri missing j a x s = Inr s'"
    then show "P (fst s')" by (rule remap_genotype_k_step_preserves[OF assms(1), rotated])
  qed
qed

lemma remap_data_based_on_genotype_preserves:
  assumes "put_preserves P put"
    "remap_data_based_on_genotype put input_data i lut n nr st missing = Inr st'" "P (fst st)"
  shows "P (fst st')"
proof -
  have "fold_err (remap_genotype_j_step put input_data i lut n (input_non_reference_idx lut i n nr) missing)
          [0..<n] st = Inr st'"
    using assms(2) unfolding remap_data_based_on_genotype_def Let_def .
  then show ?thesis
  proof (rule fold_err_invariant[where I = "\<lambda>s. P (fst s)"])
    show "P (fst st)" by fact
  next
    fix x s s'
    assume "P (fst s)" and "remap_genotype_j_step put input_data i lut n (input_non_reference_idx lut i n nr)
          missing x s = Inr s'"
    then show "P (fst s')" by (rule remap_genotype_j_step_preserves[OF assms(1), rotated])
  qed
qed

lemma RemappedVariant_put_preserves:
  "typed_pair proj ctor \<Longrightarrow>
     put_preserves (\<lambda>v. variant_shape v = S) (RemappedVariant_put asserts proj ctor q)"
  unfolding put_preserves_def using shape_RemappedVariant_put by metis

lemma REMAP_MACRO_preserves:
  assumes "typed_pair proj ctor"
    "REMAP_MACRO asserts proj ctor missing info variant q i lut n nr st = Inr st'"
    "variant_shape (fst st) = S"
  shows "variant_shape (fst st') = S"
proof -
  note pp = RemappedVariant_put_preserves[OF assms(1), of S asserts q]
  from assms(2) obtain input_data where r:
    "(if is_length_genotype_dependent info
       then remap_data_based_on_genotype (RemappedVariant_put asserts proj ctor q)
              input_data i lut n nr st missing
       else remap_data_based_on_alleles asserts (RemappedVariant_put asserts proj ctor q)
              input_data i lut n nr (is_length_only_ALT_alleles_dependent info) st missing) = Inr st'"
    unfolding REMAP_MACRO_def bind_err_def by (auto split: sum.splits)
  show ?thesis
  proof (cases "is_length_genotype_dependent info")
    case True
    then have "remap_data_based_on_genotype (RemappedVariant_put asserts proj ctor q)
              input_data i lut n nr st missing = Inr st'" using r by simp
    from remap_data_based_on_genotype_preserves[OF pp this assms(3)] show ?thesis .
  next
    case False
    then have "remap_data_based_on_alleles asserts (RemappedVariant_put asserts proj ctor q)
              input_data i lut n nr (is_length_only_ALT_alleles_dependent info) st missing = Inr st'"
      using r by simp
    from remap_data_based_on_alleles_preserves[OF pp this assms(3)] show ?thesis .
  qed
qed

lemma typed_pairs:
  "typed_pair as_IntVec IntVec" "typed_pair as_Int64Vec Int64Vec" "typed_pair as_UnsignedVec UnsignedVec"
  "typed_pair as_UInt64Vec UInt64Vec" "typed_pair as_FloatVec FloatVec" "typed_pair as_DoubleVec DoubleVec"
  "typed_pair as_StringVec StringVec" "typed_pair as_CharVec CharVec"
  unfolding typed_pair_def
  by (intro allI impI; rename_tac d xs xs'; case_tac d; simp)+

lemma remap_switch_preserves:
  assumes "remap_switch asserts k d info variant q i lut n nr st = Inr st'" "variant_shape (fst st) = S"
  shows "variant_shape (fst st') = S"
  using assms unfolding remap_switch_def
  by (cases d) (auto intro: REMAP_MACRO_preserves[OF typed_pairs(1)] REMAP_MACRO_preserves[OF typed_pairs(2)]
      REMAP_MACRO_preserves[OF typed_pairs(3)] REMAP_MACRO_preserves[OF typed_pairs(4)]
      REMAP_MACRO_preserves[OF typed_pairs(5)] REMAP_MACRO_preserves[OF typed_pairs(6)]
      REMAP_MACRO_preserves[OF typed_pairs(7)] REMAP_MACRO_preserves[OF typed_pairs(8)])

lemma get_element_type_resize: "get_element_type (resize_payload n d) = get_element_type d"
  by (cases d) simp_all

lemma remap_call_field_preserves:
  assumes "remap_call_field asserts k info variant q lut n nr field_size i st = Inr st'"
    "variant_shape (fst st) = S"
  shows "variant_shape (fst st') = S"
proof -
  obtain copy cnt where st: "st = (copy, cnt)" by (cases st)
  from assms(1) obtain f where g: "get_call_field copy i q = Inr f"
    unfolding remap_call_field_def st by (auto simp: bind_err_def split: sum.splits)
  show ?thesis
  proof (cases f)
    case None
    then show ?thesis using assms g by (simp add: remap_call_field_def st bind_err_def)
  next
    case (Some fld)
    show ?thesis
    proof (cases "field_valid fld")
      case False
      then show ?thesis using assms g Some by (simp add: remap_call_field_def st bind_err_def)
    next
      case True
      let ?fld = "fld\<lparr>payload := resize_payload field_size (payload fld)\<rparr>"
      have sw: "remap_switch asserts k (payload ?fld) info variant q i lut n nr
                  (set_call_field copy i q ?fld, cnt) = Inr st'"
        using assms(1) g Some True by (simp add: remap_call_field_def st bind_err_def Let_def)
      have "field_shape (Some ?fld) = field_shape (Some fld)"
        by (simp add: field_shape_def get_element_type_resize)
      from shape_set_call_field[OF g[unfolded Some] this]
      have "variant_shape (fst (set_call_field copy i q ?fld, cnt)) = S"
        using assms(2) by (simp add: st)
      from remap_switch_preserves[OF sw this] show ?thesis .
    qed
  qed
qed

lemma remap_call_field_exits:
  assumes "get_call_field copy i q = Inr (Some fld)" "field_valid fld" "payload fld = OtherVec t"
  shows "remap_call_field asserts k info variant q lut n nr field_size i (copy, cnt) = Inl (ProcessExit (- 1) t)"
  using assms by (simp add: remap_call_field_def bind_err_def Let_def remap_switch_def)

lemma remap_call_GT_preserves:
  assumes "remap_call_GT asserts variant q lut i copy = Inr copy'" "variant_shape copy = S"
  shows "variant_shape copy' = S"
proof -
  from assms(1) obtain f where g: "get_call_field copy i q = Inr f"
    unfolding remap_call_GT_def by (auto simp: bind_err_def split: sum.splits)
  show ?thesis
  proof (cases f)
    case None
    then show ?thesis using assms g by (simp add: remap_call_GT_def bind_err_def)
  next
    case (Some fld)
    show ?thesis
    proof (cases "field_valid fld")
      case False
      then show ?thesis using assms g Some by (simp add: remap_call_GT_def bind_err_def)
    next
      case True
      from assms(1) g Some True obtain out out' where
        o: "get_typed_field as_IntVec copy i q = Inr out"
        and c': "copy' = set_call_field copy i q (fld\<lparr>payload := IntVec out'\<rparr>)"
        unfolding remap_call_GT_def by (auto simp: bind_err_def split: sum.splits)
      from o g Some have "as_IntVec (payload fld) = Some out"
        by (auto simp: get_typed_field_def bind_err_def split: option.splits)
      then have "get_element_type (payload fld) = VARIANT_FIELD_INT"
        by (cases "payload fld") simp_all
      then have "field_shape (Some (fld\<lparr>payload := IntVec out'\<rparr>)) = field_shape (Some fld)"
        by (simp add: field_shape_def)
      from shape_set_call_field[OF g[unfolded Some] this] show ?thesis
        using assms(2) by (simp add: c')
    qed
  qed
qed

lemma remap_query_field_preserves:
  assumes "remap_query_field asserts k qc variant lut n nr q copy = Inr copy'" "variant_shape copy = S"
  shows "variant_shape copy' = S"
proof (cases "is_defined_known_field_enum (qc ! q)")
  case False
  then show ?thesis using assms by (simp add: remap_query_field_def Let_def)
next
  case True
  define first where "first =
     (case info_ptr (qc ! q) of
             None \<Rightarrow> Inr copy
           | Some info \<Rightarrow>
               if is_length_allele_dependent info then
                 bind_err
                      (fold_err (remap_call_field asserts k info variant q lut n nr
                           (get_num_elements_for_known_field_enum info (unsigned_minus_one n) 0))
                         (map fst (valid_calls copy))
                         (copy, replicate (get_num_elements_for_known_field_enum info (unsigned_minus_one n) 0) 0))
                      (\<lambda>st. Inr (fst st))
               else Inr copy)"
  have run: "remap_query_field asserts k qc variant lut n nr q copy =
      bind_err first (\<lambda>copy1.
             if is_GVCF_GT_IDX (qc ! q)
             then fold_err (remap_call_GT asserts variant q lut) (map fst (valid_calls copy1)) copy1
             else Inr copy1)"
    unfolding remap_query_field_def Let_def first_def using True by simp
  from assms(1) obtain copy1 where c1: "first = Inr copy1"
    and rest: "(if is_GVCF_GT_IDX (qc ! q)
             then fold_err (remap_call_GT asserts variant q lut) (map fst (valid_calls copy1)) copy1
             else Inr copy1) = Inr copy'"
    unfolding run bind_err_def by (auto split: sum.splits)
  have s1: "variant_shape copy1 = S"
  proof (cases "info_ptr (qc ! q)")
    case None
    then show ?thesis using c1 assms(2) by (simp add: first_def)
  next
    case (Some info)
    show ?thesis
    proof (cases "is_length_allele_dependent info")
      case False
      then show ?thesis using c1 assms(2) Some by (simp add: first_def)
    next
      case True
      let ?fs = "get_num_elements_for_known_field_enum info (unsigned_minus_one n) 0"
      from c1 Some True obtain st where f: "fold_err (remap_call_field asserts k info variant q lut n nr ?fs)
                         (map fst (valid_calls copy)) (copy, replicate ?fs 0) = Inr st" and st: "copy1 = fst st"
        unfolding first_def bind_err_def by (auto split: sum.splits)
      from f have "variant_shape (fst st) = S"
      proof (rule fold_err_invariant[where I = "\<lambda>s. variant_shape (fst s) = S"])
        show "variant_shape (fst (copy, replicate ?fs 0)) = S" using assms(2) by simp
      next
        fix x s s'
        assume "variant_shape (fst s) = S" "remap_call_field asserts k info variant q lut n nr ?fs x s = Inr s'"
        then show "variant_shape (fst s') = S" by (rule remap_call_field_preserves[rotated])
      qed
      then show ?thesis by (simp add: st)
    qed
  qed
  show ?thesis
  proof (cases "is_GVCF_GT_IDX (qc ! q)")
    case False
    then show ?thesis using rest s1 by simp
  next
    case True
    then have "fold_err (remap_call_GT asserts variant q lut) (map fst (valid_calls copy1)) copy1 = Inr copy'"
      using rest by simp
    then show ?thesis
    proof (rule fold_err_invariant[where I = "\<lambda>s. variant_shape s = S"])
      show "variant_shape copy1 = S" by fact
    next
      fix x s s'
      assume "variant_shape s = S" "remap_call_GT asserts variant q lut x s = Inr s'"
      then show "variant_shape s' = S" by (rule remap_call_GT_preserves[rotated])
    qed
  qed
qed

lemma unhandled_field_in_copy:
  assumes shape: "variant_shape copy = variant_shape variant"
    and ic: "(i, c) \<in> set (valid_calls variant)"
    and fld: "q < length (call_fields c)" "call_fields c ! q = Some fld" "field_valid fld" "payload fld = OtherVec t"
  shows "\<exists>fld'. get_call_field copy i q = Inr (Some fld') \<and> field_valid fld' \<and> payload fld' = OtherVec t"
proof -
  from valid_calls_nth[OF ic] have i: "i < length (calls variant)" "c = calls variant ! i" by auto
  have g: "get_call_field variant i q = Inr (Some fld)"
    using i fld by (simp add: get_call_field_Some)
  from shape_get_call_field[OF shape, of i q] g
  have "map_sum id field_shape (get_call_field copy i q) = Inr (field_shape (Some fld))" by simp
  then obtain f' where f': "get_call_field copy i q = Inr f'" "field_shape f' = field_shape (Some fld)"
    by (cases "get_call_field copy i q") auto
  then obtain fld' where fld': "f' = Some fld'" "field_valid fld' = field_valid fld"
    "get_element_type (payload fld') = get_element_type (payload fld)"
    by (cases f') (auto simp: field_shape_def)
  have "payload fld' = OtherVec t" using fld'(3) fld(4) by (cases "payload fld'") simp_all
  then show ?thesis using f'(1) fld' fld(3) by simp
qed

lemma remap_query_field_exits:
  assumes q: "is_defined_known_field_enum (qc ! q)" "info_ptr (qc ! q) = Some info" "is_length_allele_dependent info"
    and shape: "variant_shape copy = variant_shape variant"
    and ic: "(i, c) \<in> set (valid_calls variant)"
    and fld: "q < length (call_fields c)" "call_fields c ! q = Some fld" "field_valid fld" "payload fld = OtherVec t"
  shows "\<exists>e. remap_query_field asserts k qc variant lut n nr q copy = Inl e"
proof -
  let ?fs = "get_num_elements_for_known_field_enum info (unsigned_minus_one n) 0"
  have mem: "i \<in> set (map fst (valid_calls copy))"
    using ic shape_valid_calls[OF shape] by force
  have "\<exists>e. fold_err (remap_call_field asserts k info variant q lut n nr ?fs)
                         (map fst (valid_calls copy)) (copy, replicate ?fs 0) = Inl e"
  proof (rule fold_err_fails[where I = "\<lambda>s. variant_shape (fst s) = variant_shape variant" and x = i])
    show "variant_shape (fst (copy, replicate ?fs 0)) = variant_shape variant" using shape by simp
  next
    fix y s s'
    assume "variant_shape (fst s) = variant_shape variant"
      "remap_call_field asserts k info variant q lut n nr ?fs y s = Inr s'"
    then show "variant_shape (fst s') = variant_shape variant" by (rule remap_call_field_preserves[rotated])
  next
    show "i \<in> set (map fst (valid_calls copy))" by (rule mem)
  next
    fix s :: "VariantField Variant \<times> nat list"
    assume sh: "variant_shape (fst s) = variant_shape variant"
    obtain cp cnt where s: "s = (cp, cnt)" by (cases s)
    from unhandled_field_in_copy[OF _ ic fld, of cp] sh s
    obtain fld' where "get_call_field cp i q = Inr (Some fld')" "field_valid fld'" "payload fld' = OtherVec t"
      by auto
    from remap_call_field_exits[OF this]
    show "\<exists>e. remap_call_field asserts k info variant q lut n nr ?fs i s = Inl e"
      unfolding s by blast
  qed
  then show ?thesis
    unfolding remap_query_field_def Let_def using q by (auto simp: bind_err_def)
qed

lemma valid_calls_unhandled:
  "valid_calls example_variant_unhandled =
     [(0, \<lparr>is_valid = True, call_column_begin = 100, REF = ''T'', ALT = [''G''],
                call_fields = [Some \<lparr>field_valid = True, payload = OtherVec 0\<rparr>,
                               Some \<lparr>field_valid = True, payload = IntVec [7, 8]\<rparr>]\<rparr>)]"
  by (simp add: valid_calls_def example_variant_unhandled_def)

lemma remap_query_field_unhandled:
  "remap_query_field asserts k example_query_config example_variant_unhandled lut n nr 0 example_variant_unhandled
     = Inl (ProcessExit (- 1) 0)"
proof -
  have g: "get_call_field example_variant_unhandled 0 0 = Inr (Some \<lparr>field_valid = True, payload = OtherVec 0\<rparr>)"
    by (simp add: get_call_field_Some example_variant_unhandled_def)
  have "remap_call_field asserts k all_alleles_info example_variant_unhandled 0 lut n nr fs 0
      (example_variant_unhandled, cnt) = Inl (ProcessExit (- 1) 0)" for fs cnt
    by (rule remap_call_field_exits[OF g]) simp_all
  then show ?thesis
    unfolding remap_query_field_def Let_def
    by (simp add: example_query_config_def all_alleles_info_def valid_calls_unhandled bind_err_def)
qed

text \<open>
  Claim C8, as the code has it. When a valid call has a valid field, of a queried known
  field whose length depends on the alleles, with an element type that is none of the
  eight of the \<^verbatim>\<open>switch\<close>, the \<^verbatim>\<open>default\<close> branch reports the type on \<^verbatim>\<open>std::cerr\<close> and
  calls \<^verbatim>\<open>exit(-1)\<close>: the step for that call and field ends the process with status -1, and
  \<^verbatim>\<open>GA4GHOperator::operate\<close> never returns on such a position, in any build.
\<close>

theorem GA4GHOperator_operate_unhandled_type_exits:
  assumes q: "q < length query_config" "is_defined_known_field_enum (query_config ! q)"
      "info_ptr (query_config ! q) = Some info" "is_length_allele_dependent info"
    and ic: "(i, c) \<in> set (valid_calls variant)"
    and fld: "q < length (call_fields c)" "call_fields c ! q = Some fld" "field_valid fld" "payload fld = OtherVec t"
  shows "(\<forall>copy cnt. get_call_field copy i q = Inr (Some fld) \<longrightarrow>
            remap_call_field asserts k info variant q lut n nr field_size i (copy, cnt) = Inl (ProcessExit (- 1) t))
       \<and> (\<exists>e. GA4GHOperator_operate debug asserts k op variant query_config = Inl e)"
proof
  show "\<forall>copy cnt. get_call_field copy i q = Inr (Some fld) \<longrightarrow>
            remap_call_field asserts k info variant q lut n nr field_size i (copy, cnt) = Inl (ProcessExit (- 1) t)"
    using remap_call_field_exits[OF _ fld(3,4)] by blast
next
  show "\<exists>e. GA4GHOperator_operate debug asserts k op variant query_config = Inl e"
  proof (cases "SingleVariantOperatorBase_operate debug op variant")
    case (Inl e)
    then show ?thesis by (simp add: GA4GHOperator_operate_def bind_err_def)
  next
    case (Inr op1)
    let ?n = "length (m_merged_alt_alleles op1) + 1"
    have "\<exists>e. fold_err (remap_query_field asserts k query_config variant (m_alleles_LUT op1) ?n (m_NON_REF_exists op1))
               [0..<length query_config] variant = Inl e"
    proof (rule fold_err_fails[where I = "\<lambda>s. variant_shape s = variant_shape variant" and x = q])
      show "variant_shape variant = variant_shape variant" by simp
    next
      fix y s s'
      assume "variant_shape s = variant_shape variant"
        "remap_query_field asserts k query_config variant (m_alleles_LUT op1) ?n (m_NON_REF_exists op1) y s = Inr s'"
      then show "variant_shape s' = variant_shape variant" by (rule remap_query_field_preserves[rotated])
    next
      show "q \<in> set [0..<length query_config]" using q(1) by simp
    next
      fix s :: "VariantField Variant"
      assume "variant_shape s = variant_shape variant"
      from remap_query_field_exits[OF q(2,3,4) this ic fld]
      show "\<exists>e. remap_query_field asserts k query_config variant (m_alleles_LUT op1) ?n (m_NON_REF_exists op1) q s = Inl e" .
    qed
    then show ?thesis using Inr by (auto simp: GA4GHOperator_operate_def bind_err_def Let_def)
  qed
qed

theorem GA4GHOperator_operate_unhandled_type_exits_witness:
  "(0, calls example_variant_unhandled ! 0) \<in> set (valid_calls example_variant_unhandled)
   \<and> (\<exists>e. GA4GHOperator_operate True True example_bcf_constants fresh_operator example_variant_unhandled
             example_query_config = Inl e)"
proof -
  let ?c = "calls example_variant_unhandled ! 0"
  have q: "0 < length example_query_config" "is_defined_known_field_enum (example_query_config ! 0)"
      "info_ptr (example_query_config ! 0) = Some all_alleles_info" "is_length_allele_dependent all_alleles_info"
    by (simp_all add: example_query_config_def all_alleles_info_def)
  have c: "?c = \<lparr>is_valid = True, call_column_begin = 100, REF = ''T'', ALT = [''G''],
                call_fields = [Some \<lparr>field_valid = True, payload = OtherVec 0\<rparr>,
                               Some \<lparr>field_valid = True, payload = IntVec [7, 8]\<rparr>]\<rparr>"
    by (simp add: example_variant_unhandled_def)
  have ic: "(0, ?c) \<in> set (valid_calls example_variant_unhandled)"
    unfolding valid_calls_unhandled c by simp
  have fld: "0 < length (call_fields ?c)" "call_fields ?c ! 0 = Some \<lparr>field_valid = True, payload = OtherVec 0\<rparr>"
    "field_valid \<lparr>field_valid = True, payload = OtherVec 0\<rparr>"
    "payload \<lparr>field_valid = True, payload = OtherVec 0\<rparr> = OtherVec 0"
    by (simp_all add: example_variant_unhandled_def)
  from GA4GHOperator_operate_unhandled_type_exits[OF q ic fld, THEN conjunct2]
  have "\<exists>e. GA4GHOperator_operate True True example_bcf_constants fresh_operator example_variant_unhandled
             example_query_config = Inl e" .
  with ic show ?thesis by blast
qed

text \<open>
  Claim C8 as stated fails: on a position whose first queried field has an unrecognised
  element type and whose second queried field holds integers, the operator does not go on
  to the second field; the process exits with status -1 and no combined variant is made.
\<close>

theorem GA4GHOperator_operate_unhandled_type_aborts_process:
  "GA4GHOperator_operate False True example_bcf_constants fresh_operator example_variant_unhandled
     example_query_config = Inl (ProcessExit (- 1) 0)"
proof -
  have r: "merge_reference_allele False example_variant_unhandled [] = Inr ''T''"
    by (simp add: merge_reference_allele_def valid_calls_unhandled
      merge_reference_refs_def merge_reference_step_def CHECK_IN_THE_MIDDLE_REF_def)
  obtain alts lut nr where a: "merge_alt_alleles example_variant_unhandled ''T''
      (resize_luts_if_needed2 (m_alleles_LUT fresh_operator) (get_num_calls example_variant_unhandled) 10) = (alts, lut, nr)"
    by (metis prod_cases3)
  have b: "SingleVariantOperatorBase_operate False fresh_operator example_variant_unhandled =
      Inr (fresh_operator\<lparr>m_alleles_LUT := lut, m_merged_reference_allele := ''T'',
             m_merged_alt_alleles := alts, m_NON_REF_exists := nr\<rparr>)"
    using r a by (simp add: SingleVariantOperatorBase_operate_def Let_def fresh_operator_def)
  have u: "[0..<length example_query_config] = 0 # [1..<2]"
    by (simp add: example_query_config_def upt_conv_Cons)
  show ?thesis
    unfolding GA4GHOperator_operate_def b bind_err_def Let_def u
    by (simp add: remap_query_field_unhandled)
qed

end
